theory Spec2Isabelle
  imports Complex_Main "HOL-Library.Log_Nat"
begin

section \<open>Python floats\<close>

text \<open>
  Every number of \<^verbatim>\<open>posteeg_app.py\<close> is a Python \<^verbatim>\<open>float\<close>, an IEEE 754
  binary64 value. A finite float is modelled by the rational number it denotes; the two
  infinities and NaN are separate values. The zeros \<^verbatim>\<open>0.0\<close> and \<^verbatim>\<open>-0.0\<close> are
  identified (\<open>Fin 0\<close>): Python's comparisons treat them as equal, and the operations used
  by the program (\<^verbatim>\<open>+ - * / < <= > min max\<close>) give results that differ at most in the sign
  of a zero when a zero argument changes sign.
\<close>

datatype pyfloat = Fin rat | PInf | NInf | NaN

datatype error = ZeroDivisionError | ValueError

subsection \<open>Rounding to nearest, ties to even\<close>

text \<open>\<open>ilog2 q\<close> is \<open>\<lfloor>log\<^sub>2 q\<rfloor>\<close> for a positive rational \<open>q\<close>.\<close>

definition ilog2 :: "rat \<Rightarrow> int" where
  "ilog2 q = (if 1 \<le> q then bitlen \<lfloor>q\<rfloor> - 1 else - bitlen (\<lceil>1 / q\<rceil> - 1))"

definition round_even :: "rat \<Rightarrow> int" where
  "round_even x = (let f = \<lfloor>x\<rfloor>; r = x - of_int f in
       if r < 1 / 2 then f else if 1 / 2 < r then f + 1 else if even f then f else f + 1)"

text \<open>
  The exponent of the unit in the last place of \<open>x\<close>: 53 significant bits for a normal
  number, the fixed exponent \<open>-1074\<close> in the subnormal range.
\<close>

definition ulp_exp :: "rat \<Rightarrow> int" where
  "ulp_exp x = max (ilog2 \<bar>x\<bar> - 52) (- 1074)"

definition rnd_fin :: "rat \<Rightarrow> rat" where
  "rnd_fin x = (if x = 0 then 0 else
      sgn x * of_int (round_even (\<bar>x\<bar> / 2 powi ulp_exp x)) * 2 powi ulp_exp x)"

text \<open>A result whose rounded magnitude reaches \<open>2\<^sup>1\<^sup>0\<^sup>2\<^sup>4\<close> overflows to an infinity.\<close>

definition rnd :: "rat \<Rightarrow> pyfloat" where
  "rnd x = (let y = rnd_fin x in
      if 2 ^ 1024 \<le> y then PInf else if y \<le> - (2 ^ 1024) then NInf else Fin y)"

text \<open>A rational is a binary64 number when rounding leaves it as it is.\<close>

definition is_double :: "rat \<Rightarrow> bool" where
  "is_double q \<longleftrightarrow> rnd q = Fin q"

text \<open>The finite floats: what a numeric input field can hold.\<close>

fun finite_float :: "pyfloat \<Rightarrow> bool" where
  "finite_float (Fin q) = is_double q"
| "finite_float _ = False"

subsection \<open>Comparisons and arithmetic\<close>

text \<open>Python's \<^verbatim>\<open><\<close> and \<^verbatim>\<open><=\<close>: every comparison with NaN is false.\<close>

fun flt :: "pyfloat \<Rightarrow> pyfloat \<Rightarrow> bool" where
  "flt NaN _ = False"
| "flt _ NaN = False"
| "flt (Fin a) (Fin b) = (a < b)"
| "flt _ NInf = False"
| "flt PInf _ = False"
| "flt NInf _ = True"
| "flt _ PInf = True"

fun fle :: "pyfloat \<Rightarrow> pyfloat \<Rightarrow> bool" where
  "fle NaN _ = False"
| "fle _ NaN = False"
| "fle (Fin a) (Fin b) = (a \<le> b)"
| "fle NInf _ = True"
| "fle _ PInf = True"
| "fle _ NInf = False"
| "fle PInf _ = False"

fun fneg :: "pyfloat \<Rightarrow> pyfloat" where
  "fneg (Fin a) = Fin (- a)"
| "fneg PInf = NInf"
| "fneg NInf = PInf"
| "fneg NaN = NaN"

fun fadd :: "pyfloat \<Rightarrow> pyfloat \<Rightarrow> pyfloat" where
  "fadd NaN _ = NaN"
| "fadd _ NaN = NaN"
| "fadd (Fin a) (Fin b) = rnd (a + b)"
| "fadd PInf NInf = NaN"
| "fadd NInf PInf = NaN"
| "fadd PInf _ = PInf"
| "fadd _ PInf = PInf"
| "fadd NInf _ = NInf"
| "fadd _ NInf = NInf"

definition fsub :: "pyfloat \<Rightarrow> pyfloat \<Rightarrow> pyfloat" where
  "fsub a b = fadd a (fneg b)"

text \<open>The sign of a float as \<open>-1\<close>, \<open>0\<close> or \<open>1\<close> (not used on NaN).\<close>

fun fsgn :: "pyfloat \<Rightarrow> int" where
  "fsgn (Fin a) = (if a < 0 then - 1 else if a = 0 then 0 else 1)"
| "fsgn PInf = 1"
| "fsgn NInf = - 1"
| "fsgn NaN = 0"

definition inf_of_sign :: "int \<Rightarrow> pyfloat" where
  "inf_of_sign s = (if s = 0 then NaN else if 0 < s then PInf else NInf)"

fun fmul :: "pyfloat \<Rightarrow> pyfloat \<Rightarrow> pyfloat" where
  "fmul NaN _ = NaN"
| "fmul _ NaN = NaN"
| "fmul (Fin a) (Fin b) = rnd (a * b)"
| "fmul a b = inf_of_sign (fsgn a * fsgn b)"

text \<open>
  Python's \<^verbatim>\<open>/\<close> raises \<^verbatim>\<open>ZeroDivisionError\<close> when the divisor is zero, whatever
  the dividend.
\<close>

fun fdiv :: "pyfloat \<Rightarrow> pyfloat \<Rightarrow> error + pyfloat" where
  "fdiv a (Fin b) =
     (if b = 0 then Inl ZeroDivisionError
      else case a of Fin x \<Rightarrow> Inr (rnd (x / b))
         | NaN \<Rightarrow> Inr NaN
         | _ \<Rightarrow> Inr (inf_of_sign (fsgn a * fsgn (Fin b))))"
| "fdiv _ NaN = Inr NaN"
| "fdiv (Fin x) _ = Inr (Fin 0)"
| "fdiv _ _ = Inr NaN"

text \<open>
  The built-ins \<^verbatim>\<open>min(a, b)\<close> and \<^verbatim>\<open>max(a, b)\<close> keep the first argument unless the
  second is strictly smaller (greater).
\<close>

definition py_min :: "pyfloat \<Rightarrow> pyfloat \<Rightarrow> pyfloat" where
  "py_min a b = (if flt b a then b else a)"

definition py_max :: "pyfloat \<Rightarrow> pyfloat \<Rightarrow> pyfloat" where
  "py_max a b = (if flt a b then b else a)"

text \<open>\<^verbatim>\<open>max(xs, key=k)\<close>: the first element whose key no later element beats strictly.\<close>

fun max_key_from :: "('a \<Rightarrow> pyfloat) \<Rightarrow> 'a \<Rightarrow> 'a list \<Rightarrow> 'a" where
  "max_key_from k best [] = best"
| "max_key_from k best (x # xs) = max_key_from k (if flt (k best) (k x) then x else best) xs"

fun max_key :: "('a \<Rightarrow> pyfloat) \<Rightarrow> 'a list \<Rightarrow> error + 'a" where
  "max_key k [] = Inl ValueError"
| "max_key k (x # xs) = Inr (max_key_from k x xs)"

definition bind_err :: "error + 'a \<Rightarrow> ('a \<Rightarrow> error + 'b) \<Rightarrow> error + 'b" where
  "bind_err m f = (case m of Inl e \<Rightarrow> Inl e | Inr v \<Rightarrow> f v)"

section \<open>The calculator\<close>

subsection \<open>Helper functions\<close>

definition euro_per_kwh_from_cent :: "pyfloat \<Rightarrow> error + pyfloat" where
  "euro_per_kwh_from_cent cent = fdiv cent (Fin 100)"

definition clamp :: "pyfloat \<Rightarrow> pyfloat \<Rightarrow> pyfloat \<Rightarrow> pyfloat" where
  "clamp x lo hi = py_max lo (py_min hi x)"

definition compute_self_consumed_kwh :: "pyfloat \<Rightarrow> pyfloat \<Rightarrow> pyfloat \<Rightarrow> error + pyfloat" where
  "compute_self_consumed_kwh generation_kwh consumption_kwh self_pct =
     (let self_pct = clamp self_pct (Fin 0) (Fin 100) in
      bind_err (fdiv self_pct (Fin 100)) (\<lambda>frac.
        let target_self = fmul generation_kwh frac in
        Inr (py_min target_self consumption_kwh)))"

text \<open>The result \<open>None\<close> is Python's \<^verbatim>\<open>None\<close>: the investment is never recovered.\<close>

definition payback_years :: "pyfloat \<Rightarrow> pyfloat \<Rightarrow> error + pyfloat option" where
  "payback_years invest annual_cashflow =
     (if fle invest (Fin 0) then Inr (Some (Fin 0))
      else if fle annual_cashflow (Fin 0) then Inr None
      else bind_err (fdiv invest annual_cashflow) (\<lambda>y. Inr (Some y)))"

subsection \<open>The result structure\<close>

text \<open>
  The dataclass \<^verbatim>\<open>Result\<close>. Its field \<^verbatim>\<open>payback_years\<close> is called \<open>payback\<close> here,
  the name \<open>payback_years\<close> being the function's.
\<close>

record Result =
  name :: string
  invest_eur :: pyfloat
  annual_cashflow_eur :: pyfloat
  total_10y_eur :: pyfloat
  total_20y_eur :: pyfloat
  payback :: "pyfloat option"

subsection \<open>The variants\<close>

definition variant1_full_feed_in :: "pyfloat \<Rightarrow> pyfloat \<Rightarrow> error + Result" where
  "variant1_full_feed_in generation_kwh market_value_cent =
     bind_err (euro_per_kwh_from_cent market_value_cent) (\<lambda>mv.
       let annual = fmul generation_kwh mv;
           invest = Fin 0 in
       bind_err (payback_years invest annual) (\<lambda>pb.
         Inr \<lparr> name = ''V1 Volleinspeisung (Marktwert)'',
               invest_eur = invest,
               annual_cashflow_eur = annual,
               total_10y_eur = fmul (Fin 10) annual,
               total_20y_eur = fmul (Fin 20) annual,
               payback = pb \<rparr>))"

definition variant_self_consumption ::
  "string \<Rightarrow> pyfloat \<Rightarrow> pyfloat \<Rightarrow> pyfloat \<Rightarrow> pyfloat \<Rightarrow> pyfloat \<Rightarrow> pyfloat \<Rightarrow> error + Result" where
  "variant_self_consumption nm generation_kwh consumption_kwh self_pct invest retail_cent export_cent =
     bind_err (euro_per_kwh_from_cent retail_cent) (\<lambda>retail.
     bind_err (euro_per_kwh_from_cent export_cent) (\<lambda>export_price.
     bind_err (compute_self_consumed_kwh generation_kwh consumption_kwh self_pct) (\<lambda>self_kwh.
       let export_kwh = py_max (Fin 0) (fsub generation_kwh self_kwh);
           annual = fadd (fmul self_kwh retail) (fmul export_kwh export_price) in
       bind_err (payback_years invest annual) (\<lambda>pb.
         Inr \<lparr> name = nm,
               invest_eur = invest,
               annual_cashflow_eur = annual,
               total_10y_eur = fadd (fneg invest) (fmul (Fin 10) annual),
               total_20y_eur = fadd (fneg invest) (fmul (Fin 20) annual),
               payback = pb \<rparr>))))"

definition variant4_new_system ::
  "pyfloat \<Rightarrow> pyfloat \<Rightarrow> pyfloat \<Rightarrow> pyfloat \<Rightarrow> pyfloat \<Rightarrow> pyfloat \<Rightarrow> error + Result" where
  "variant4_new_system new_generation_kwh consumption_kwh self_pct invest retail_cent eeg_cent =
     bind_err (euro_per_kwh_from_cent retail_cent) (\<lambda>retail.
     bind_err (euro_per_kwh_from_cent eeg_cent) (\<lambda>eeg.
     bind_err (compute_self_consumed_kwh new_generation_kwh consumption_kwh self_pct) (\<lambda>self_kwh.
       let export_kwh = py_max (Fin 0) (fsub new_generation_kwh self_kwh);
           annual = fadd (fmul self_kwh retail) (fmul export_kwh eeg) in
       bind_err (payback_years invest annual) (\<lambda>pb.
         Inr \<lparr> name = ''V4 Neuanlage (EEG + EV)'',
               invest_eur = invest,
               annual_cashflow_eur = annual,
               total_10y_eur = fadd (fneg invest) (fmul (Fin 10) annual),
               total_20y_eur = fadd (fneg invest) (fmul (Fin 20) annual),
               payback = pb \<rparr>))))"

subsection \<open>Ranking and the cash-flow series\<close>

definition best_20 :: "Result list \<Rightarrow> error + Result" where
  "best_20 results = max_key total_20y_eur results"

definition years :: "int list" where
  "years = [0..20]"

definition cashflow_curve :: "pyfloat \<Rightarrow> pyfloat \<Rightarrow> pyfloat list" where
  "cashflow_curve invest annual =
     map (\<lambda>y. fadd (fneg invest) (fmul annual (Fin (of_int y)))) years"

section \<open>Properties of rounding\<close>

subsection \<open>The binary logarithm\<close>

text \<open>
  \<open>ilog2\<close> is computed from the bit length of an integer part; the lemmas below show that
  it is the binary logarithm rounded down, \<open>2\<^bsup>ilog2 q\<^esup> \<le> q < 2\<^bsup>ilog2 q + 1\<^esup>\<close>, which
  determines it.
\<close>

lemma powi_nat: "0 \<le> k \<Longrightarrow> (2::rat) powi k = 2 ^ nat k"
  by (simp add: power_int_def)

lemma powi_neg_nat: "0 \<le> k \<Longrightarrow> (2::rat) powi (- k) = 1 / 2 ^ nat k"
  by (simp add: power_int_def field_simps)

lemma ilog2_bounds_ge1:
  assumes "1 \<le> q"
  shows "2 powi ilog2 q \<le> q \<and> q < 2 powi (ilog2 q + 1)"
proof -
  let ?n = "\<lfloor>q\<rfloor>"
  have n: "0 < ?n" using assms by simp
  from bitlen_bounds[OF n] have lo: "2 ^ nat (bitlen ?n - 1) \<le> ?n" and hi: "?n < 2 ^ nat (bitlen ?n)"
    by auto
  have b1: "1 \<le> bitlen ?n" using n by (simp add: bitlen_alt_def)
  have "rat_of_int (2 ^ nat (bitlen ?n - 1)) \<le> of_int ?n" using lo by (simp only: of_int_le_iff)
  also have "\<dots> \<le> q" by simp
  finally have L: "2 powi (bitlen ?n - 1) \<le> q" using b1 by (simp add: powi_nat)
  have "?n + 1 \<le> 2 ^ nat (bitlen ?n)" using hi by simp
  then have "rat_of_int (?n + 1) \<le> of_int (2 ^ nat (bitlen ?n))" by (simp only: of_int_le_iff)
  moreover have "q < of_int (?n + 1)" by linarith
  ultimately have "q < of_int (2 ^ nat (bitlen ?n))" by linarith
  then have U: "q < 2 powi (bitlen ?n - 1 + 1)" using b1 by (simp add: powi_nat)
  show ?thesis using L U assms by (simp add: ilog2_def)
qed

lemma ilog2_bounds_lt1:
  assumes "0 < q" "q < 1"
  shows "2 powi ilog2 q \<le> q \<and> q < 2 powi (ilog2 q + 1)"
proof -
  define r where "r = 1 / q"
  define j where "j = \<lceil>r\<rceil> - 1"
  define k where "k = bitlen j"
  have r1: "1 < r" using assms by (simp add: r_def)
  have q: "q = 1 / r" by (simp add: r_def)
  have jr: "of_int j < r" unfolding j_def by linarith
  have rj: "r \<le> of_int j + 1" unfolding j_def by simp
  have j: "0 < j" using r1 unfolding j_def by linarith
  from bitlen_bounds[OF j] have lo: "2 ^ nat (k - 1) \<le> j" and hi: "j < 2 ^ nat k"
    by (auto simp: k_def)
  have k1: "1 \<le> k" using j by (simp add: bitlen_alt_def k_def)
  have "j + 1 \<le> 2 ^ nat k" using hi by simp
  then have "rat_of_int (j + 1) \<le> of_int (2 ^ nat k)" by (simp only: of_int_le_iff)
  then have "rat_of_int j + 1 \<le> 2 ^ nat k" by (simp only: of_int_power of_int_numeral of_int_add of_int_1)
  with rj have "r \<le> 2 ^ nat k" by linarith
  then have "1 / 2 ^ nat k \<le> q" using r1 unfolding q by (simp add: field_simps)
  then have L: "2 powi (- k) \<le> q" using k1 by (simp add: powi_neg_nat)
  have "rat_of_int (2 ^ nat (k - 1)) \<le> of_int j" using lo by (simp only: of_int_le_iff)
  then have "(2::rat) ^ nat (k - 1) \<le> of_int j" by (simp only: of_int_power of_int_numeral)
  with jr have "2 ^ nat (k - 1) < r" by linarith
  then have "q < 1 / 2 ^ nat (k - 1)" using r1 unfolding q by (simp add: field_simps)
  moreover have "(2::rat) powi (- k + 1) = 1 / 2 ^ nat (k - 1)"
    using powi_neg_nat[of "k - 1"] k1 by simp
  ultimately have U: "q < 2 powi (- k + 1)" by simp
  have "ilog2 q = - k" using assms by (simp add: ilog2_def k_def j_def r_def)
  with L U show ?thesis by simp
qed

lemma ilog2_bounds:
  "0 < q \<Longrightarrow> 2 powi ilog2 q \<le> q \<and> q < 2 powi (ilog2 q + 1)"
  using ilog2_bounds_ge1 ilog2_bounds_lt1 by (cases "1 \<le> q") auto

lemma powi_mono: "a \<le> b \<Longrightarrow> (2::rat) powi a \<le> 2 powi b"
  by (rule power_int_increasing) simp_all

lemma powi_less_imp: "(2::rat) powi a < 2 powi b \<Longrightarrow> a < b"
  using powi_mono[of b a] by (cases "a < b") auto

lemma ilog2_unique:
  assumes "0 < q" "2 powi k \<le> q" "q < 2 powi (k + 1)"
  shows "ilog2 q = k"
proof -
  from ilog2_bounds[OF assms(1)] have a: "2 powi ilog2 q \<le> q" and b: "q < 2 powi (ilog2 q + 1)"
    by auto
  have "(2::rat) powi k < 2 powi (ilog2 q + 1)" using assms(2) b by simp
  then have 1: "k < ilog2 q + 1" by (rule powi_less_imp)
  have "(2::rat) powi ilog2 q < 2 powi (k + 1)" using assms(3) a by simp
  then have 2: "ilog2 q < k + 1" by (rule powi_less_imp)
  from 1 2 show ?thesis by simp
qed

lemma ilog2_mono:
  assumes "0 < x" "x \<le> y"
  shows "ilog2 x \<le> ilog2 y"
proof -
  have y: "0 < y" using assms by simp
  have "(2::rat) powi ilog2 x \<le> x" using ilog2_bounds[OF assms(1)] by simp
  also have "\<dots> \<le> y" by fact
  also have "\<dots> < 2 powi (ilog2 y + 1)" using ilog2_bounds[OF y] by simp
  finally have "ilog2 x < ilog2 y + 1" by (rule powi_less_imp)
  then show ?thesis by simp
qed

subsection \<open>Rounding to an integer\<close>

text \<open>
  Rounding to the nearest integer is monotone and leaves integers alone; so is, and does,
  rounding to 53 bits (\<open>rnd_fin_mono\<close>). Monotonicity is what bounds the results of the
  calculator: a share of the generation, once rounded, is still at most the generation.
\<close>

lemma round_even_lower: "\<lfloor>x\<rfloor> \<le> round_even x"
  by (simp add: round_even_def Let_def)

lemma round_even_upper: "round_even x \<le> \<lfloor>x\<rfloor> + 1"
  by (simp add: round_even_def Let_def)

lemma round_even_of_int: "round_even (of_int m) = m"
  by (simp add: round_even_def Let_def)

lemma round_even_mono:
  assumes "x \<le> y"
  shows "round_even x \<le> round_even y"
proof (cases "\<lfloor>x\<rfloor> < \<lfloor>y\<rfloor>")
  case True
  have "round_even x \<le> \<lfloor>x\<rfloor> + 1" by (rule round_even_upper)
  also have "\<dots> \<le> \<lfloor>y\<rfloor>" using True by simp
  also have "\<dots> \<le> round_even y" by (rule round_even_lower)
  finally show ?thesis .
next
  case False
  moreover have "\<lfloor>x\<rfloor> \<le> \<lfloor>y\<rfloor>" using assms by (rule floor_mono)
  ultimately have eq: "\<lfloor>x\<rfloor> = \<lfloor>y\<rfloor>" by simp
  then have "x - of_int \<lfloor>x\<rfloor> \<le> y - of_int \<lfloor>y\<rfloor>" using assms by simp
  then show ?thesis
    unfolding round_even_def Let_def eq by auto
qed

lemma round_even_ge: "of_int a \<le> x \<Longrightarrow> a \<le> round_even x"
  using round_even_mono[of "of_int a" x] by (simp add: round_even_of_int)

lemma round_even_le: "x \<le> of_int b \<Longrightarrow> round_even x \<le> b"
  using round_even_mono[of x "of_int b"] by (simp add: round_even_of_int)

lemma ulp_exp_ge: "- 1074 \<le> ulp_exp x"
  by (simp add: ulp_exp_def)

lemma ulp_exp_neg: "ulp_exp (- x) = ulp_exp x"
  by (simp add: ulp_exp_def)

lemma rnd_fin_neg: "rnd_fin (- x) = - rnd_fin x"
  by (simp add: rnd_fin_def ulp_exp_neg sgn_minus)

lemma rnd_fin_pos_eq:
  "0 < x \<Longrightarrow> rnd_fin x = of_int (round_even (x / 2 powi ulp_exp x)) * 2 powi ulp_exp x"
  by (simp add: rnd_fin_def)

lemma powi_pos: "0 < (2::rat) powi e"
  by simp

lemma scaled_lt: "0 < x \<Longrightarrow> x / 2 powi ulp_exp x < 2 ^ 53"
proof -
  assume x: "0 < x"
  have "x < 2 powi (ilog2 x + 1)" using ilog2_bounds[OF x] by simp
  also have "\<dots> \<le> 2 powi (ulp_exp x + 53)"
    using x by (intro powi_mono) (simp add: ulp_exp_def)
  also have "\<dots> = 2 powi ulp_exp x * 2 ^ 53"
    by (simp add: power_int_add)
  finally show ?thesis
    by (simp add: pos_divide_less_eq mult.commute)
qed

lemma scaled_ge: "0 < x \<Longrightarrow> - 1074 < ulp_exp x \<Longrightarrow> 2 ^ 52 \<le> x / 2 powi ulp_exp x"
proof -
  assume x: "0 < x" and e: "- 1074 < ulp_exp x"
  then have eq: "ulp_exp x + 52 = ilog2 x" by (simp add: ulp_exp_def max_def split: if_splits)
  have "(2::rat) powi ulp_exp x * 2 ^ 52 = 2 powi (ulp_exp x + 52)"
    by (simp add: power_int_add)
  also have "\<dots> \<le> x" unfolding eq using ilog2_bounds[OF x] x by simp
  finally show ?thesis
    by (simp add: pos_le_divide_eq mult.commute)
qed

lemma rnd_fin_nonneg: "0 \<le> x \<Longrightarrow> 0 \<le> rnd_fin x"
proof (cases "x = 0")
  case True then show ?thesis by (simp add: rnd_fin_def)
next
  case False
  assume "0 \<le> x"
  with False have x: "0 < x" by simp
  have "rat_of_int 0 \<le> x / 2 powi ulp_exp x" using x by simp
  then have "0 \<le> round_even (x / 2 powi ulp_exp x)" by (rule round_even_ge)
  then show ?thesis using x by (simp add: rnd_fin_pos_eq)
qed

lemma rnd_fin_mono_pos:
  assumes x: "0 < x" and xy: "x \<le> y"
  shows "rnd_fin x \<le> rnd_fin y"
proof -
  have y: "0 < y" using x xy by simp
  have e: "ulp_exp x \<le> ulp_exp y"
    using ilog2_mono[of x y] x xy by (simp add: ulp_exp_def)
  show ?thesis
  proof (cases "ulp_exp x = ulp_exp y")
    case True
    have "x / 2 powi ulp_exp y \<le> y / 2 powi ulp_exp y"
      using xy by (simp add: divide_right_mono)
    then have "round_even (x / 2 powi ulp_exp y) \<le> round_even (y / 2 powi ulp_exp y)"
      by (rule round_even_mono)
    then show ?thesis
      using x y True by (simp add: rnd_fin_pos_eq)
  next
    case False
    with e have lt: "ulp_exp x < ulp_exp y" by simp
    then have ny: "- 1074 < ulp_exp y" using ulp_exp_ge[of x] by simp
    have "x / 2 powi ulp_exp x \<le> rat_of_int (2 ^ 53)" using scaled_lt[OF x] by simp
    then have "round_even (x / 2 powi ulp_exp x) \<le> 2 ^ 53" by (rule round_even_le)
    then have "rat_of_int (round_even (x / 2 powi ulp_exp x)) \<le> of_int (2 ^ 53)"
      by (simp only: of_int_le_iff)
    then have "rnd_fin x \<le> 2 ^ 53 * 2 powi ulp_exp x"
      using x by (simp add: rnd_fin_pos_eq)
    also have "\<dots> = 2 powi (ulp_exp x + 53)" by (simp add: power_int_add)
    also have "\<dots> \<le> 2 powi (ulp_exp y + 52)" using lt by (intro powi_mono) simp
    also have "\<dots> = 2 ^ 52 * 2 powi ulp_exp y" by (simp add: power_int_add)
    also have "\<dots> \<le> rnd_fin y"
    proof -
      have "rat_of_int (2 ^ 52) \<le> y / 2 powi ulp_exp y" using scaled_ge[OF y ny] by simp
      then have "2 ^ 52 \<le> round_even (y / 2 powi ulp_exp y)" by (rule round_even_ge)
      then have "rat_of_int (2 ^ 52) \<le> of_int (round_even (y / 2 powi ulp_exp y))"
        by (simp only: of_int_le_iff)
      then show ?thesis using y by (simp add: rnd_fin_pos_eq)
    qed
    finally show ?thesis .
  qed
qed

lemma rnd_fin_mono:
  assumes "x \<le> y"
  shows "rnd_fin x \<le> rnd_fin y"
proof -
  consider "0 < x" | "x \<le> 0" "0 \<le> y" | "y < 0" using assms by linarith
  then show ?thesis
  proof cases
    case 1 then show ?thesis using assms by (rule rnd_fin_mono_pos)
  next
    case 2
    have "rnd_fin x \<le> 0" using rnd_fin_nonneg[of "- x"] 2 by (simp add: rnd_fin_neg)
    also have "0 \<le> rnd_fin y" using 2 by (simp add: rnd_fin_nonneg)
    finally show ?thesis .
  next
    case 3
    have "rnd_fin (- y) \<le> rnd_fin (- x)" using 3 assms by (intro rnd_fin_mono_pos) simp_all
    then show ?thesis by (simp add: rnd_fin_neg)
  qed
qed

subsection \<open>Binary64 numbers are fixed points\<close>

text \<open>
  A number \<open>m * 2\<^bsup>e\<^esup>\<close> with \<open>\<bar>m\<bar> \<le> 2\<^sup>5\<^sup>3\<close> and \<open>e \<ge> -1074\<close> is rounded to itself, and every
  result of a rounding has that form: rounding is idempotent, and the result of an
  arithmetic operation is a binary64 number again.
\<close>

lemma ulp_exp_at:
  assumes "2 powi (e + 52) \<le> \<bar>x\<bar>" "\<bar>x\<bar> < 2 powi (e + 53)" "- 1074 \<le> e"
  shows "ulp_exp x = e"
proof -
  have "0 < (2::rat) powi (e + 52)" by simp
  with assms(1) have x: "0 < \<bar>x\<bar>" by linarith
  have "ilog2 \<bar>x\<bar> = e + 52"
    using x assms(1) assms(2) by (intro ilog2_unique) (simp_all add: add.commute add.left_commute)
  then show ?thesis using assms(3) by (simp add: ulp_exp_def)
qed

lemma ulp_exp_subnormal:
  assumes "x \<noteq> 0" "\<bar>x\<bar> < 2 powi (- 1022)"
  shows "ulp_exp x = - 1074"
proof -
  have x: "0 < \<bar>x\<bar>" using assms(1) by simp
  have "(2::rat) powi ilog2 \<bar>x\<bar> \<le> \<bar>x\<bar>" using ilog2_bounds[OF x] by simp
  also have "\<dots> < 2 powi (- 1022)" by fact
  finally have "ilog2 \<bar>x\<bar> < - 1022" by (rule powi_less_imp)
  then show ?thesis by (simp add: ulp_exp_def)
qed

lemma rnd_fin_fixed_pos:
  assumes m: "0 < m" "m \<le> 2 ^ 53" and e: "- 1074 \<le> e"
  shows "rnd_fin (of_int m * 2 powi e) = of_int m * 2 powi e"
proof -
  define x :: rat where "x = of_int m * 2 powi e"
  define e' where "e' = ulp_exp x"
  have x: "0 < x" using m by (simp add: x_def)
  have "\<exists>n. x / 2 powi e' = of_int n"
  proof (cases "e' \<le> e")
    case True
    have "x / 2 powi e' = of_int m * 2 powi (e - e')"
      by (simp add: x_def power_int_diff)
    also have "\<dots> = of_int (m * 2 ^ nat (e - e'))"
      using True by (simp add: powi_nat)
    finally show ?thesis by blast
  next
    case False
    then have lt: "e < e'" by simp
    with e have "- 1074 < ulp_exp x" by (simp add: e'_def)
    moreover have "\<bar>x\<bar> = x" using x by simp
    ultimately have il: "ilog2 x = e' + 52"
      by (simp add: e'_def ulp_exp_def max_def split: if_splits)
    have "(2::rat) powi (e + 53) \<le> 2 powi ilog2 x"
      using lt il by (intro powi_mono) simp
    also have "\<dots> \<le> x" using ilog2_bounds[OF x] by simp
    finally have lo: "2 powi (e + 53) \<le> x" .
    have "rat_of_int m \<le> of_int (2 ^ 53)" using m(2) by (simp only: of_int_le_iff)
    then have "x \<le> 2 ^ 53 * 2 powi e" by (simp add: x_def)
    also have "\<dots> = 2 powi (e + 53)" by (simp add: power_int_add)
    finally have xe: "x = 2 powi (e + 53)" using lo by simp
    have "x < 2 powi (e + 53 + 1)"
      unfolding xe by (rule power_int_strict_increasing) simp_all
    with x lo have "ilog2 x = e + 53" by (intro ilog2_unique) simp_all
    with il have e': "e' = e + 1" by simp
    have "x / 2 powi e' = 2 powi (e + 53 - e')" unfolding xe by (simp add: power_int_diff)
    also have "\<dots> = of_int (2 ^ 52)" unfolding e' by simp
    finally show ?thesis by blast
  qed
  then obtain n where n: "x / 2 powi e' = of_int n" by blast
  have "rnd_fin x = of_int n * 2 powi e'"
    using x n by (simp add: rnd_fin_pos_eq e'_def round_even_of_int)
  also have "\<dots> = x / 2 powi e' * 2 powi e'" by (simp only: n)
  also have "\<dots> = x" by simp
  finally show ?thesis by (simp add: x_def)
qed

lemma rnd_fin_fixed:
  assumes "\<bar>m\<bar> \<le> 2 ^ 53" "- 1074 \<le> e"
  shows "rnd_fin (of_int m * 2 powi e) = of_int m * 2 powi e"
proof -
  consider "m = 0" | "0 < m" | "m < 0" by linarith
  then show ?thesis
  proof cases
    case 1 then show ?thesis by (simp add: rnd_fin_def)
  next
    case 2 then show ?thesis using assms by (intro rnd_fin_fixed_pos) simp_all
  next
    case 3
    then have "rnd_fin (of_int (- m) * 2 powi e) = of_int (- m) * 2 powi e"
      using assms by (intro rnd_fin_fixed_pos) simp_all
    then show ?thesis using rnd_fin_neg[of "of_int m * 2 powi e"] by simp
  qed
qed

lemma rnd_fin_repr_pos:
  assumes "0 < x"
  shows "\<exists>m. rnd_fin x = of_int m * 2 powi ulp_exp x \<and> \<bar>m\<bar> \<le> 2 ^ 53"
proof -
  let ?m = "round_even (x / 2 powi ulp_exp x)"
  have "x / 2 powi ulp_exp x \<le> rat_of_int (2 ^ 53)" using scaled_lt[OF assms] by simp
  then have 1: "?m \<le> 2 ^ 53" by (rule round_even_le)
  have "rat_of_int 0 \<le> x / 2 powi ulp_exp x" using assms by simp
  then have 2: "0 \<le> ?m" by (rule round_even_ge)
  from 1 2 have "\<bar>?m\<bar> \<le> 2 ^ 53" by simp
  then show ?thesis using assms by (auto simp: rnd_fin_pos_eq)
qed

lemma rnd_fin_idem_pos: "0 < x \<Longrightarrow> rnd_fin (rnd_fin x) = rnd_fin x"
  using rnd_fin_repr_pos[of x] rnd_fin_fixed[OF _ ulp_exp_ge[of x]] by auto

lemma rnd_fin_idem: "rnd_fin (rnd_fin x) = rnd_fin x"
proof -
  consider "x = 0" | "0 < x" | "x < 0" by linarith
  then show ?thesis
  proof cases
    case 1 then show ?thesis by (simp add: rnd_fin_def)
  next
    case 2 then show ?thesis by (rule rnd_fin_idem_pos)
  next
    case 3
    then have "rnd_fin (rnd_fin (- x)) = rnd_fin (- x)" by (intro rnd_fin_idem_pos) simp
    then show ?thesis by (simp add: rnd_fin_neg)
  qed
qed

lemma rnd_fin_0: "rnd_fin 0 = 0"
  by (simp add: rnd_fin_def)

lemma rnd_fin_int: "\<bar>n\<bar> \<le> 2 ^ 53 \<Longrightarrow> rnd_fin (of_int n) = of_int n"
  using rnd_fin_fixed[of n 0] by simp

lemma is_double_iff: "is_double q \<longleftrightarrow> rnd_fin q = q \<and> \<bar>q\<bar> < 2 ^ 1024"
  by (auto simp: is_double_def rnd_def Let_def)

lemma is_double_int: "\<bar>n\<bar> \<le> 2 ^ 53 \<Longrightarrow> is_double (of_int n)"
proof -
  assume n: "\<bar>n\<bar> \<le> 2 ^ 53"
  have "(2::int) ^ 53 < 2 ^ 1024" by (rule power_strict_increasing) simp_all
  with n have "\<bar>n\<bar> < 2 ^ 1024" by linarith
  then have "rat_of_int \<bar>n\<bar> < of_int (2 ^ 1024)" by (simp only: of_int_less_iff)
  then have "\<bar>rat_of_int n\<bar> < 2 ^ 1024" by simp
  with n show ?thesis by (simp add: is_double_iff rnd_fin_int)
qed

lemma is_double_neg: "is_double q \<Longrightarrow> is_double (- q)"
  by (simp add: is_double_iff rnd_fin_neg)

lemma rnd_Fin_is_double: "rnd x = Fin y \<Longrightarrow> is_double y"
  by (auto simp: rnd_def Let_def is_double_iff rnd_fin_idem split: if_splits)

lemma rnd_not_NaN: "rnd x \<noteq> NaN"
  by (simp add: rnd_def Let_def)

lemma rnd_double: "is_double q \<Longrightarrow> rnd q = Fin q"
  by (simp add: is_double_def)

lemma rnd_mono: "x \<le> y \<Longrightarrow> fle (rnd x) (rnd y)"
  using rnd_fin_mono[of x y] by (auto simp: rnd_def Let_def)

subsection \<open>Evaluating a rounding\<close>

text \<open>
  To evaluate \<open>rnd x\<close> at a given positive \<open>x\<close> it is enough to name the exponent \<open>e\<close> of its
  unit in the last place and the integer \<open>m\<close> nearest to \<open>x / 2\<^bsup>e\<^esup>\<close>; what is left to check
  is arithmetic on numerals.
\<close>

lemma rnd_at:
  assumes "0 < x" "2 powi (e + 52) \<le> x" "x < 2 powi (e + 53)" "- 1074 \<le> e" "e \<le> 970"
  shows "rnd x = Fin (of_int (round_even (x / 2 powi e)) * 2 powi e)"
proof -
  have ax: "\<bar>x\<bar> = x" using assms(1) by simp
  have ue: "ulp_exp x = e"
    using assms(2,3,4) by (intro ulp_exp_at) (simp_all add: ax)
  let ?y = "rat_of_int (round_even (x / 2 powi e)) * 2 powi e"
  have y: "rnd_fin x = ?y" using assms(1) by (simp add: rnd_fin_pos_eq ue)
  have "x / 2 powi e \<le> rat_of_int (2 ^ 53)" using scaled_lt[OF assms(1)] by (simp add: ue)
  then have "round_even (x / 2 powi e) \<le> 2 ^ 53" by (rule round_even_le)
  then have "rat_of_int (round_even (x / 2 powi e)) \<le> of_int (2 ^ 53)"
    by (simp only: of_int_le_iff)
  then have "?y \<le> 2 ^ 53 * 2 powi e" by simp
  also have "\<dots> = 2 powi (e + 53)" by (simp add: power_int_add)
  also have "\<dots> \<le> 2 powi 1023" using assms(5) by (intro powi_mono) simp
  also have "\<dots> < 2 powi 1024" by (rule power_int_strict_increasing) simp_all
  finally have hi: "?y < 2 ^ 1024" by simp
  have "0 \<le> rnd_fin x" using assms(1) by (intro rnd_fin_nonneg) simp
  then have lo: "0 \<le> ?y" by (simp only: y)
  have "- (2 ^ 1024) < (0::rat)" by simp
  with lo have lo': "- (2 ^ 1024) < ?y" by linarith
  show ?thesis using hi lo' by (simp add: rnd_def Let_def y)
qed

lemma rnd_numeral: "(numeral k :: int) \<le> 2 ^ 53 \<Longrightarrow> rnd (numeral k) = Fin (numeral k)"
  using is_double_int[of "numeral k"] by (simp add: is_double_def)

lemma round_even_near:
  assumes "\<bar>x - of_int m\<bar> < 1 / 2"
  shows "round_even x = m"
proof (cases "of_int m \<le> x")
  case True
  then have "\<lfloor>x\<rfloor> = m" using assms by (intro floor_unique) linarith+
  then show ?thesis using assms True by (simp add: round_even_def Let_def)
next
  case False
  then have "\<lfloor>x\<rfloor> = m - 1" using assms by (intro floor_unique) (simp, linarith)+
  then show ?thesis using assms False by (simp add: round_even_def Let_def)
qed

lemma rnd_near:
  assumes "0 < x" "2 powi (e + 52) \<le> x" "x < 2 powi (e + 53)" "- 1074 \<le> e" "e \<le> 970"
    and "\<bar>x / 2 powi e - of_int m\<bar> < 1 / 2"
  shows "rnd x = Fin (of_int m * 2 powi e)"
  using rnd_at[OF assms(1-5)] round_even_near[OF assms(6)] by simp

section \<open>Properties of the float operations\<close>

lemma rnd_0: "rnd 0 = Fin 0"
  by (simp add: rnd_def rnd_fin_0)

lemma rnd_nonneg: "0 \<le> x \<Longrightarrow> fle (Fin 0) (rnd x)"
  using rnd_mono[of 0 x] by (simp add: rnd_0)

lemma rnd_between:
  assumes "a \<le> x" "x \<le> b" "is_double a" "is_double b"
  shows "\<exists>y. rnd x = Fin y \<and> a \<le> y \<and> y \<le> b"
proof -
  have "fle (Fin a) (rnd x)" using rnd_mono[OF assms(1)] assms(3) by (simp add: is_double_def)
  moreover have "fle (rnd x) (Fin b)" using rnd_mono[OF assms(2)] assms(4) by (simp add: is_double_def)
  ultimately show ?thesis by (cases "rnd x") auto
qed

lemma is_double_0: "is_double 0"
  using is_double_int[of 0] by simp

lemma is_double_1: "is_double 1"
  using is_double_int[of 1] by simp

lemma is_double_numeral: "(numeral k :: int) \<le> 2 ^ 53 \<Longrightarrow> is_double (numeral k)"
  using is_double_int[of "numeral k"] by simp

lemma fle_zero_cases: "fle (Fin 0) z \<longleftrightarrow> (\<exists>y. z = Fin y \<and> 0 \<le> y) \<or> z = PInf"
  by (cases z) auto

lemma fle_refl: "a \<noteq> NaN \<Longrightarrow> fle a a"
  by (cases a) auto

lemma flt_fle_trans: "fle a b \<Longrightarrow> flt b c \<Longrightarrow> flt a c"
  by (cases a; cases b; cases c) auto

lemma flt_imp_fle: "flt a b \<Longrightarrow> fle a b"
  by (cases a; cases b) auto

lemma not_flt_fle: "a \<noteq> NaN \<Longrightarrow> b \<noteq> NaN \<Longrightarrow> \<not> flt a b \<Longrightarrow> fle b a"
  by (cases a; cases b) auto

lemma fdiv_nonzero: "b \<noteq> Fin 0 \<Longrightarrow> \<exists>q. fdiv a b = Inr q"
  by (cases a; cases b) auto

lemma fmul_Fin_is_double: "fmul a b = Fin y \<Longrightarrow> is_double y"
  by (cases a; cases b) (auto simp: inf_of_sign_def rnd_Fin_is_double split: if_splits)

lemma fadd_zero_fmul: "fadd (Fin 0) (fmul a b) = fmul a b"
proof (cases "fmul a b")
  case (Fin y)
  then have "is_double y" by (rule fmul_Fin_is_double)
  then show ?thesis using Fin by (simp add: is_double_def)
qed simp_all

lemma fmul_nonneg: "0 \<le> a \<Longrightarrow> 0 \<le> b \<Longrightarrow> fle (Fin 0) (fmul (Fin a) (Fin b))"
  by (simp add: rnd_nonneg)

lemma fadd_nonneg: "fle (Fin 0) x \<Longrightarrow> fle (Fin 0) y \<Longrightarrow> fle (Fin 0) (fadd x y)"
  by (cases x; cases y) (simp_all add: rnd_nonneg)

lemma fmul_numeral_nonneg: "fle (Fin 0) z \<Longrightarrow> fle (Fin 0) (fmul (Fin (numeral k)) z)"
  by (cases z) (simp_all add: rnd_nonneg inf_of_sign_def)

lemma total_ge:
  assumes "is_double i" "fle (Fin 0) z"
  shows "fle (Fin (- i)) (fadd (Fin (- i)) z)"
proof (cases z)
  case (Fin y)
  then have "0 \<le> y" using assms(2) by simp
  then have "fle (rnd (- i)) (rnd (- i + y))" by (intro rnd_mono) simp
  moreover have "rnd (- i) = Fin (- i)" using is_double_neg[OF assms(1)] by (simp add: is_double_def)
  ultimately show ?thesis using Fin by simp
qed (use assms(2) in simp_all)

section \<open>The helper functions and the variants return\<close>

text \<open>
  No division of the program has a zero divisor: the conversions divide by the constant
  100, and \<open>payback_years\<close> divides only after \<^verbatim>\<open>annual_cashflow <= 0\<close> was false. So
  each function returns a value (\<open>Inr\<close>); the lemmas \<open>variant1_eq\<close>,
  \<open>variant_self_consumption_eq\<close> and \<open>variant4_eq\<close> give the record that is built.
\<close>

lemma euro_total: "\<exists>p. euro_per_kwh_from_cent c = Inr p"
  unfolding euro_per_kwh_from_cent_def by (rule fdiv_nonzero) simp

lemma euro_nonneg:
  assumes "finite_float c" "fle (Fin 0) c"
  shows "\<exists>e. euro_per_kwh_from_cent c = Inr (Fin e) \<and> 0 \<le> e"
proof -
  obtain q where q: "c = Fin q" "is_double q" "0 \<le> q"
    using assms by (cases c) auto
  have "0 \<le> q / 100" "q / 100 \<le> q" using q(3) by simp_all
  then have "\<exists>e. rnd (q / 100) = Fin e \<and> 0 \<le> e \<and> e \<le> q"
    using q(2) by (intro rnd_between) (simp_all add: is_double_0)
  then show ?thesis by (auto simp: euro_per_kwh_from_cent_def q(1))
qed

lemma payback_total: "\<exists>pb. payback_years i a = Inr pb"
proof (cases "fle i (Fin 0) \<or> fle a (Fin 0)")
  case True
  then show ?thesis by (auto simp: payback_years_def)
next
  case False
  then have "a \<noteq> Fin 0" by auto
  then obtain q where "fdiv i a = Inr q" using fdiv_nonzero by blast
  with False show ?thesis by (simp add: payback_years_def bind_err_def)
qed

lemma payback_None_iff:
  assumes "fle (Fin 0) a" "i \<noteq> NaN"
  shows "payback_years i a = Inr None \<longleftrightarrow> a = Fin 0 \<and> flt (Fin 0) i"
proof (cases "fle i (Fin 0)")
  case True
  then have "\<not> flt (Fin 0) i" by (cases i) auto
  with True show ?thesis by (simp add: payback_years_def)
next
  case ni: False
  show ?thesis
  proof (cases "fle a (Fin 0)")
    case True
    with assms(1) have a: "a = Fin 0" by (cases a) auto
    show ?thesis
    proof (cases "flt (Fin 0) i")
      case True
      with a ni show ?thesis by (simp add: payback_years_def)
    next
      case False
      with ni have "i = NaN" by (cases i) auto
      with assms(2) show ?thesis by simp
    qed
  next
    case False
    then have "a \<noteq> Fin 0" by auto
    then obtain q where "fdiv i a = Inr q" using fdiv_nonzero by blast
    with ni False show ?thesis by (auto simp: payback_years_def bind_err_def)
  qed
qed

lemma clamp_range: "\<exists>q. clamp p (Fin 0) (Fin 100) = Fin q \<and> 0 \<le> q \<and> q \<le> 100"
  by (cases p) (auto simp: clamp_def py_min_def py_max_def)

lemma clamp_id: "fle (Fin 0) p \<Longrightarrow> fle p (Fin 100) \<Longrightarrow> clamp p (Fin 0) (Fin 100) = p"
  by (cases p) (auto simp: clamp_def py_min_def py_max_def)

lemma clamp_idem:
  "clamp (clamp p (Fin 0) (Fin 100)) (Fin 0) (Fin 100) = clamp p (Fin 0) (Fin 100)"
proof -
  obtain q where "clamp p (Fin 0) (Fin 100) = Fin q" "0 \<le> q" "q \<le> 100"
    using clamp_range by blast
  then show ?thesis by (simp add: clamp_id)
qed

lemma frac_range:
  assumes "0 \<le> q" "q \<le> 100"
  shows "\<exists>f. rnd (q / 100) = Fin f \<and> 0 \<le> f \<and> f \<le> 1"
  using assms by (intro rnd_between) (simp_all add: is_double_0 is_double_1)

lemma self_consumed_eq:
  assumes "clamp p (Fin 0) (Fin 100) = Fin q"
  shows "compute_self_consumed_kwh g c p = Inr (py_min (fmul g (rnd (q / 100))) c)"
  using assms by (simp add: compute_self_consumed_kwh_def bind_err_def)

lemma self_consumed_total: "\<exists>s. compute_self_consumed_kwh g c p = Inr s"
  using clamp_range[of p] self_consumed_eq by blast

lemma clamp_below: "flt p (Fin 0) \<Longrightarrow> clamp p (Fin 0) (Fin 100) = Fin 0"
  by (cases p) (auto simp: clamp_def py_min_def py_max_def)

lemma clamp_above: "flt (Fin 100) p \<or> p = NaN \<Longrightarrow> clamp p (Fin 0) (Fin 100) = Fin 100"
  by (cases p) (auto simp: clamp_def py_min_def py_max_def)

lemma self_consumed_clamped:
  assumes "clamp p (Fin 0) (Fin 100) = Fin q"
  shows "compute_self_consumed_kwh g c p = compute_self_consumed_kwh g c (Fin q)"
proof -
  have "clamp (Fin q) (Fin 0) (Fin 100) = Fin q"
    using clamp_idem[of p] by (simp only: assms)
  then show ?thesis
    by (simp add: self_consumed_eq[OF assms] self_consumed_eq)
qed

lemma self_1000_at_100: "compute_self_consumed_kwh (Fin 1000) (Fin 2000) (Fin 100) = Inr (Fin 1000)"
proof -
  have c: "clamp (Fin 100) (Fin 0) (Fin 100) = Fin 100"
    by (simp add: clamp_def py_min_def py_max_def)
  have "rnd 1 = Fin 1" using is_double_1 by (simp add: is_double_def)
  then show ?thesis
    by (simp add: self_consumed_eq[OF c] rnd_numeral py_min_def)
qed

lemma self_1000_at_0: "compute_self_consumed_kwh (Fin 1000) (Fin 2000) (Fin 0) = Inr (Fin 0)"
proof -
  have c: "clamp (Fin 0) (Fin 0) (Fin 100) = Fin 0"
    by (simp add: clamp_def py_min_def py_max_def)
  show ?thesis
    by (simp add: self_consumed_eq[OF c] rnd_0 py_min_def)
qed

lemma self_consumed_bounds:
  assumes g: "is_double g" "0 \<le> g" and q: "clamp p (Fin 0) (Fin 100) = Fin q"
  shows "\<exists>t. fmul (Fin g) (rnd (q / 100)) = Fin t \<and> 0 \<le> t \<and> t \<le> g"
proof -
  have "0 \<le> q" "q \<le> 100" using clamp_range[of p] q by auto
  then obtain f where f: "rnd (q / 100) = Fin f" "0 \<le> f" "f \<le> 1"
    using frac_range by blast
  have "0 \<le> g * f" using g(2) f(2) by simp
  moreover have "g * f \<le> g" using g(2) f(3) by (simp add: mult_left_le)
  ultimately have "\<exists>t. rnd (g * f) = Fin t \<and> 0 \<le> t \<and> t \<le> g"
    using g(1) by (intro rnd_between) (simp_all add: is_double_0)
  then show ?thesis by (simp add: f(1))
qed

lemma split_nonneg:
  assumes "finite_float g" "fle (Fin 0) g" "fle (Fin 0) c"
  shows "\<exists>s e. compute_self_consumed_kwh g c p = Inr (Fin s) \<and> 0 \<le> s \<and>
           py_max (Fin 0) (fsub g (Fin s)) = Fin e \<and> 0 \<le> e"
proof -
  obtain g' where g: "g = Fin g'" "is_double g'" "0 \<le> g'"
    using assms(1,2) by (cases g) auto
  obtain q where cl: "clamp p (Fin 0) (Fin 100) = Fin q" using clamp_range by blast
  obtain t where t: "fmul (Fin g') (rnd (q / 100)) = Fin t" "0 \<le> t" "t \<le> g'"
    using self_consumed_bounds[OF g(2,3) cl] by blast
  have s: "compute_self_consumed_kwh g c p = Inr (py_min (Fin t) c)"
    using self_consumed_eq[OF cl, of g c] t(1) g(1) by simp
  have "\<exists>s'. py_min (Fin t) c = Fin s' \<and> 0 \<le> s' \<and> s' \<le> g'"
    using assms(3) t(2,3) by (cases c) (auto simp: py_min_def)
  then obtain s' where s': "py_min (Fin t) c = Fin s'" "0 \<le> s'" "s' \<le> g'"
    by blast
  have "0 \<le> g' - s'" "g' - s' \<le> g'" using s'(2,3) by simp_all
  then have "\<exists>e. rnd (g' - s') = Fin e \<and> 0 \<le> e \<and> e \<le> g'"
    using g(2) by (intro rnd_between) (simp_all add: is_double_0)
  then obtain e where e: "rnd (g' - s') = Fin e" "0 \<le> e" by blast
  have "py_max (Fin 0) (fsub g (Fin s')) = Fin e"
    using e by (auto simp: py_max_def fsub_def g(1))
  with s s' e show ?thesis by auto
qed

lemma variant1_eq:
  assumes "euro_per_kwh_from_cent m = Inr mv" "payback_years (Fin 0) (fmul g mv) = Inr pb"
  shows "variant1_full_feed_in g m =
     Inr \<lparr> name = ''V1 Volleinspeisung (Marktwert)'', invest_eur = Fin 0,
           annual_cashflow_eur = fmul g mv,
           total_10y_eur = fmul (Fin 10) (fmul g mv),
           total_20y_eur = fmul (Fin 20) (fmul g mv),
           payback = pb \<rparr>"
  using assms by (simp add: variant1_full_feed_in_def bind_err_def Let_def)

lemma variant_self_consumption_eq:
  assumes "euro_per_kwh_from_cent rc = Inr retail" "euro_per_kwh_from_cent ec = Inr price"
    and "compute_self_consumed_kwh g c p = Inr s"
    and "annual = fadd (fmul s retail) (fmul (py_max (Fin 0) (fsub g s)) price)"
    and "payback_years i annual = Inr pb"
  shows "variant_self_consumption nm g c p i rc ec =
     Inr \<lparr> name = nm, invest_eur = i, annual_cashflow_eur = annual,
           total_10y_eur = fadd (fneg i) (fmul (Fin 10) annual),
           total_20y_eur = fadd (fneg i) (fmul (Fin 20) annual),
           payback = pb \<rparr>"
  using assms by (simp add: variant_self_consumption_def bind_err_def Let_def)

lemma variant4_eq:
  assumes "euro_per_kwh_from_cent rc = Inr retail" "euro_per_kwh_from_cent ec = Inr eeg"
    and "compute_self_consumed_kwh g c p = Inr s"
    and "annual = fadd (fmul s retail) (fmul (py_max (Fin 0) (fsub g s)) eeg)"
    and "payback_years i annual = Inr pb"
  shows "variant4_new_system g c p i rc ec =
     Inr \<lparr> name = ''V4 Neuanlage (EEG + EV)'', invest_eur = i, annual_cashflow_eur = annual,
           total_10y_eur = fadd (fneg i) (fmul (Fin 10) annual),
           total_20y_eur = fadd (fneg i) (fmul (Fin 20) annual),
           payback = pb \<rparr>"
  using assms by (simp add: variant4_new_system_def bind_err_def Let_def)

section \<open>The scenarios, evaluated\<close>

text \<open>
  Each rounding of the two scenarios of the specification, checked with \<open>rnd_near\<close>:
  the exponent of the unit in the last place and the 53-bit significand are given, the
  kernel checks that they are the nearest.
\<close>

lemma is_double_3_5: "is_double (7 / 2)"
  using rnd_near[of "7 / 2" "- 51" 7881299347898368] by (simp add: is_double_def)

lemma is_double_542: "is_double (2169 / 4)"
  using rnd_near[of "2169 / 4" "- 43" 4769681441292288] by (simp add: is_double_def)

lemma cent_30: "fdiv (Fin 30) (Fin 100) = Inr (Fin (5404319552844595 / 18014398509481984))"
  using rnd_near[of "3 / 10" "- 54" 5404319552844595] by simp

lemma cent_32: "euro_per_kwh_from_cent (Fin 32) = Inr (Fin (5764607523034235 / 18014398509481984))"
  using rnd_near[of "8 / 25" "- 54" 5764607523034235] by (simp add: euro_per_kwh_from_cent_def)

lemma cent_3_5: "euro_per_kwh_from_cent (Fin (7 / 2)) = Inr (Fin (1261007895663739 / 36028797018963968))"
  using rnd_near[of "7 / 200" "- 57" 5044031582654956] by (simp add: euro_per_kwh_from_cent_def)

lemma target_1350: "fmul (Fin 4500) (Fin (5404319552844595 / 18014398509481984)) = Fin 1350"
  using rnd_near[of "4500 * (5404319552844595 / 18014398509481984)" "- 42" 5937362789990400]
  by simp

lemma self_1350: "compute_self_consumed_kwh (Fin 4500) (Fin 4000) (Fin 30) = Inr (Fin 1350)"
  by (simp add: compute_self_consumed_kwh_def clamp_def py_min_def py_max_def bind_err_def
      cent_30 target_1350 del: fdiv.simps fmul.simps)

lemma export_3150: "py_max (Fin 0) (fsub (Fin 4500) (Fin 1350)) = Fin 3150"
  by (simp add: py_max_def fsub_def rnd_numeral)

lemma saved_432: "fmul (Fin 1350) (Fin (5764607523034235 / 18014398509481984)) = Fin 432"
  using rnd_near[of "1350 * (5764607523034235 / 18014398509481984)" "- 44" 7599824371187712]
  by simp

lemma sold_110: "fmul (Fin 3150) (Fin (1261007895663739 / 36028797018963968)) =
    Fin (7758154045587457 / 70368744177664)"
  using rnd_near[of "3150 * (1261007895663739 / 36028797018963968)" "- 46" 7758154045587457]
  by simp

lemma annual_542: "fadd (Fin 432) (Fin (7758154045587457 / 70368744177664)) = Fin (2169 / 4)"
  using rnd_near[of "432 + 7758154045587457 / 70368744177664" "- 43" 4769681441292288]
  by simp

lemma scenario_annual:
  "fadd (fmul (Fin 1350) (Fin (5764607523034235 / 18014398509481984)))
        (fmul (py_max (Fin 0) (fsub (Fin 4500) (Fin 1350))) (Fin (1261007895663739 / 36028797018963968)))
   = Fin (2169 / 4)"
  by (simp only: export_3150 saved_432 sold_110 annual_542)

lemma annual_157: "fmul (Fin 4500) (Fin (1261007895663739 / 36028797018963968)) =
    Fin (5541538603991041 / 35184372088832)"
  using rnd_near[of "4500 * (1261007895663739 / 36028797018963968)" "- 45" 5541538603991041]
  by simp

lemma total10_1575: "fmul (Fin 10) (Fin (5541538603991041 / 35184372088832)) =
    Fin (6926923254988801 / 4398046511104)"
  using rnd_near[of "10 * (5541538603991041 / 35184372088832)" "- 42" 6926923254988801]
  by simp

lemma total20_3150: "fmul (Fin 20) (Fin (5541538603991041 / 35184372088832)) =
    Fin (6926923254988801 / 2199023255552)"
  using rnd_near[of "20 * (5541538603991041 / 35184372088832)" "- 41" 6926923254988801]
  by simp

lemma variant1_scenario:
  "variant1_full_feed_in (Fin 4500) (Fin (7 / 2)) =
     Inr \<lparr> name = ''V1 Volleinspeisung (Marktwert)'', invest_eur = Fin 0,
           annual_cashflow_eur = Fin (5541538603991041 / 35184372088832),
           total_10y_eur = Fin (6926923254988801 / 4398046511104),
           total_20y_eur = Fin (6926923254988801 / 2199023255552),
           payback = Some (Fin 0) \<rparr>"
proof -
  have pb: "payback_years (Fin 0) (fmul (Fin 4500) (Fin (1261007895663739 / 36028797018963968))) =
      Inr (Some (Fin 0))"
    by (simp add: payback_years_def)
  show ?thesis
    unfolding variant1_eq[OF cent_3_5 pb] by (simp only: annual_157 total10_1575 total20_3150)
qed

lemma cent_7: "fdiv (Fin 7) (Fin 100) = Inr (Fin (1261007895663739 / 18014398509481984))"
  using rnd_near[of "7 / 100" "- 56" 5044031582654956] by simp

lemma target_7: "fmul (Fin 100) (Fin (1261007895663739 / 18014398509481984)) =
    Fin (7881299347898369 / 1125899906842624)"
  using rnd_near[of "100 * (1261007895663739 / 18014398509481984)" "- 50" 7881299347898369]
  by simp

section \<open>The first maximum\<close>

lemma years_length: "length years = 21"
  by (simp add: years_def)

lemma years_nth: "n < 21 \<Longrightarrow> years ! n = int n"
  by (simp add: years_def)

lemma max_key_from_snoc:
  "max_key_from k b (xs @ [x]) =
     (if flt (k (max_key_from k b xs)) (k x) then x else max_key_from k b xs)"
  by (induction xs arbitrary: b) simp_all

lemma max_key_from_first_max:
  assumes "\<forall>x \<in> set (b # xs). k x \<noteq> NaN"
  shows "\<exists>i < length (b # xs). max_key_from k b xs = (b # xs) ! i \<and>
           (\<forall>j < length (b # xs). fle (k ((b # xs) ! j)) (k ((b # xs) ! i))) \<and>
           (\<forall>j < i. flt (k ((b # xs) ! j)) (k ((b # xs) ! i)))"
  using assms
proof (induction xs rule: rev_induct)
  case Nil
  then show ?case by (simp add: fle_refl)
next
  case (snoc x xs)
  define l where "l = b # xs"
  define m where "m = max_key_from k b xs"
  have eq: "b # xs @ [x] = l @ [x]" by (simp add: l_def)
  from snoc.prems have nn: "\<forall>y \<in> set l. k y \<noteq> NaN" and kx: "k x \<noteq> NaN"
    by (auto simp: l_def)
  from snoc.IH obtain i where i: "i < length l" "m = l ! i"
    and all: "\<forall>j < length l. fle (k (l ! j)) (k (l ! i))"
    and first: "\<forall>j < i. flt (k (l ! j)) (k (l ! i))"
    using nn unfolding l_def m_def by blast
  have km: "k m \<noteq> NaN" using nn i by simp
  have nth_old: "(l @ [x]) ! j = l ! j" if "j < length l" for j
    using that by (simp add: nth_append)
  have nth_new: "(l @ [x]) ! length l = x" by simp
  have step: "max_key_from k b (xs @ [x]) = (if flt (k m) (k x) then x else m)"
    unfolding m_def by (rule max_key_from_snoc)
  have "\<exists>i' < length (l @ [x]). (if flt (k m) (k x) then x else m) = (l @ [x]) ! i' \<and>
           (\<forall>j < length (l @ [x]). fle (k ((l @ [x]) ! j)) (k ((l @ [x]) ! i'))) \<and>
           (\<forall>j < i'. flt (k ((l @ [x]) ! j)) (k ((l @ [x]) ! i')))"
  proof (cases "flt (k m) (k x)")
    case True
    have lt: "flt (k (l ! j)) (k x)" if "j < length l" for j
      using all that True i(2) flt_fle_trans by metis
    have le: "fle (k ((l @ [x]) ! j)) (k x)" if "j < length (l @ [x])" for j
    proof (cases "j < length l")
      case True
      then show ?thesis using lt flt_imp_fle by (simp add: nth_old)
    next
      case False
      with that have "j = length l" by simp
      then show ?thesis using kx by (simp add: fle_refl)
    qed
    show ?thesis
    proof (intro exI[of _ "length l"] conjI allI impI)
      show "length l < length (l @ [x])" by simp
      show "(if flt (k m) (k x) then x else m) = (l @ [x]) ! length l" using True by simp
      show "fle (k ((l @ [x]) ! j)) (k ((l @ [x]) ! length l))" if "j < length (l @ [x])" for j
        using le[OF that] by simp
      show "flt (k ((l @ [x]) ! j)) (k ((l @ [x]) ! length l))" if "j < length l" for j
        using lt[OF that] that by (simp add: nth_old)
    qed
  next
    case False
    then have xm: "fle (k x) (k m)" using km kx by (intro not_flt_fle)
    show ?thesis
    proof (intro exI[of _ i] conjI allI impI)
      show "i < length (l @ [x])" using i(1) by simp
      show "(if flt (k m) (k x) then x else m) = (l @ [x]) ! i"
        using False i by (simp add: nth_old)
      show "fle (k ((l @ [x]) ! j)) (k ((l @ [x]) ! i))" if "j < length (l @ [x])" for j
      proof (cases "j < length l")
        case True
        then show ?thesis using all i(1) by (simp add: nth_old)
      next
        case False
        with that have "j = length l" by simp
        then show ?thesis using xm i by (simp add: nth_old)
      qed
      show "flt (k ((l @ [x]) ! j)) (k ((l @ [x]) ! i))" if "j < i" for j
        using first that i(1) by (simp add: nth_old)
    qed
  qed
  then show ?case unfolding step eq .
qed

section \<open>The claims\<close>

subsection \<open>Payback\<close>

text \<open>
  C2. \<open>payback_years\<close> returns 0 whenever the investment is at most 0, whatever the annual
  cash flow; it returns \<open>None\<close> when the investment is positive and the annual cash flow is
  at most 0; and when both are positive it returns their quotient (the division does not
  raise, and the quotient is the one Python's \<^verbatim>\<open>/\<close> computes).
\<close>

theorem payback_years_cases:
  "(fle invest (Fin 0) \<longrightarrow> payback_years invest annual = Inr (Some (Fin 0))) \<and>
   (flt (Fin 0) invest \<and> fle annual (Fin 0) \<longrightarrow> payback_years invest annual = Inr None) \<and>
   (flt (Fin 0) invest \<and> flt (Fin 0) annual \<longrightarrow>
      (\<exists>q. fdiv invest annual = Inr q \<and> payback_years invest annual = Inr (Some q)))"
proof (intro conjI impI)
  assume "fle invest (Fin 0)"
  then show "payback_years invest annual = Inr (Some (Fin 0))"
    by (simp add: payback_years_def)
next
  assume h: "flt (Fin 0) invest \<and> fle annual (Fin 0)"
  then have "\<not> fle invest (Fin 0)"
    by (cases invest) auto
  with h show "payback_years invest annual = Inr None"
    by (simp add: payback_years_def)
next
  assume h: "flt (Fin 0) invest \<and> flt (Fin 0) annual"
  then have ni: "\<not> fle invest (Fin 0)"
    by (cases invest) auto
  from h have na: "\<not> fle annual (Fin 0)"
    by (cases annual) auto
  from h have "annual \<noteq> Fin 0"
    by auto
  then obtain q where q: "fdiv invest annual = Inr q"
    by (cases invest; cases annual) auto
  with ni na show "\<exists>q. fdiv invest annual = Inr q \<and> payback_years invest annual = Inr (Some q)"
    by (simp add: payback_years_def bind_err_def)
qed

theorem payback_years_cases_witness:
  "fle (Fin 0) (Fin 0) \<and> payback_years (Fin 0) (Fin 5) = Inr (Some (Fin 0)) \<and>
   flt (Fin 0) (Fin 1200) \<and> fle (Fin 0) (Fin 0) \<and>
   payback_years (Fin 1200) (Fin 0) = Inr None \<and>
   flt (Fin 0) (Fin 600) \<and> payback_years (Fin 1200) (Fin 600) = Inr (Some (Fin 2))"
  using payback_years_cases[of "Fin 0" "Fin 5"] payback_years_cases[of "Fin 1200" "Fin 0"]
    payback_years_cases[of "Fin 1200" "Fin 600"]
  by (simp add: rnd_numeral)

subsection \<open>The self-consumption allocator\<close>

text \<open>
  C6. A percentage outside [0, 100] is clamped, not rejected: for every generation,
  consumption and percentage (infinities and NaN included) the allocator returns a value,
  the same on \<open>pct\<close> and on \<open>clamp pct 0 100\<close>; and \<open>clamp pct 0 100\<close> is 0 for a
  percentage below 0, 100 for a percentage above 100 or NaN, and \<open>pct\<close> itself in between,
  so that the allocator treats a percentage below 0 as 0 and one above 100 as 100. In
  particular \<^verbatim>\<open>allocate(1000, 1000, 150) == allocate(1000, 1000, 100)\<close>; with a consumption
  of 2000, which does not cap the result, 150 percent gives 1000 (not 1500) and -5 percent
  gives 0.
\<close>

theorem clamp_lenient:
  "(\<exists>s. compute_self_consumed_kwh g c p = Inr s \<and>
        compute_self_consumed_kwh g c (clamp p (Fin 0) (Fin 100)) = Inr s) \<and>
   (flt p (Fin 0) \<longrightarrow>
      clamp p (Fin 0) (Fin 100) = Fin 0 \<and>
      compute_self_consumed_kwh g c p = compute_self_consumed_kwh g c (Fin 0)) \<and>
   (flt (Fin 100) p \<or> p = NaN \<longrightarrow>
      clamp p (Fin 0) (Fin 100) = Fin 100 \<and>
      compute_self_consumed_kwh g c p = compute_self_consumed_kwh g c (Fin 100)) \<and>
   (fle (Fin 0) p \<and> fle p (Fin 100) \<longrightarrow> clamp p (Fin 0) (Fin 100) = p) \<and>
   compute_self_consumed_kwh (Fin 1000) (Fin 1000) (Fin 150) =
     compute_self_consumed_kwh (Fin 1000) (Fin 1000) (Fin 100) \<and>
   compute_self_consumed_kwh (Fin 1000) (Fin 2000) (Fin 150) = Inr (Fin 1000) \<and>
   compute_self_consumed_kwh (Fin 1000) (Fin 2000) (Fin (- 5)) = Inr (Fin 0)"
proof (intro conjI impI)
  obtain q where q: "clamp p (Fin 0) (Fin 100) = Fin q" using clamp_range by blast
  obtain s where s: "compute_self_consumed_kwh g c p = Inr s" using self_consumed_total by blast
  show "\<exists>s. compute_self_consumed_kwh g c p = Inr s \<and>
        compute_self_consumed_kwh g c (clamp p (Fin 0) (Fin 100)) = Inr s"
    using s self_consumed_clamped[OF q, of g c] by (simp add: q)
next
  assume "flt p (Fin 0)"
  then show "clamp p (Fin 0) (Fin 100) = Fin 0" by (rule clamp_below)
  then show "compute_self_consumed_kwh g c p = compute_self_consumed_kwh g c (Fin 0)"
    by (rule self_consumed_clamped)
next
  assume "flt (Fin 100) p \<or> p = NaN"
  then show "clamp p (Fin 0) (Fin 100) = Fin 100" by (rule clamp_above)
  then show "compute_self_consumed_kwh g c p = compute_self_consumed_kwh g c (Fin 100)"
    by (rule self_consumed_clamped)
next
  assume "fle (Fin 0) p \<and> fle p (Fin 100)"
  then show "clamp p (Fin 0) (Fin 100) = p" by (simp add: clamp_id)
next
  have a: "clamp (Fin 150) (Fin 0) (Fin 100) = Fin 100" by (rule clamp_above) simp
  show "compute_self_consumed_kwh (Fin 1000) (Fin 1000) (Fin 150) =
     compute_self_consumed_kwh (Fin 1000) (Fin 1000) (Fin 100)"
    using a by (rule self_consumed_clamped)
  show "compute_self_consumed_kwh (Fin 1000) (Fin 2000) (Fin 150) = Inr (Fin 1000)"
    using self_consumed_clamped[OF a, of "Fin 1000" "Fin 2000"] by (simp add: self_1000_at_100)
  have b: "clamp (Fin (- 5)) (Fin 0) (Fin 100) = Fin 0" by (rule clamp_below) simp
  show "compute_self_consumed_kwh (Fin 1000) (Fin 2000) (Fin (- 5)) = Inr (Fin 0)"
    using self_consumed_clamped[OF b, of "Fin 1000" "Fin 2000"] by (simp add: self_1000_at_0)
qed

theorem clamp_lenient_witness:
  "flt (Fin (- 5)) (Fin 0) \<and> clamp (Fin (- 5)) (Fin 0) (Fin 100) = Fin 0 \<and>
   compute_self_consumed_kwh (Fin 1000) (Fin 2000) (Fin (- 5)) =
     compute_self_consumed_kwh (Fin 1000) (Fin 2000) (Fin 0) \<and>
   flt (Fin 100) (Fin 150) \<and> clamp (Fin 150) (Fin 0) (Fin 100) = Fin 100 \<and>
   compute_self_consumed_kwh (Fin 1000) (Fin 2000) (Fin 150) =
     compute_self_consumed_kwh (Fin 1000) (Fin 2000) (Fin 100) \<and>
   clamp NaN (Fin 0) (Fin 100) = Fin 100 \<and>
   compute_self_consumed_kwh (Fin 1000) (Fin 2000) NaN =
     compute_self_consumed_kwh (Fin 1000) (Fin 2000) (Fin 100) \<and>
   fle (Fin 0) (Fin 30) \<and> fle (Fin 30) (Fin 100) \<and> clamp (Fin 30) (Fin 0) (Fin 100) = Fin 30"
  using clamp_lenient[of "Fin 1000" "Fin 2000" "Fin (- 5)"]
    clamp_lenient[of "Fin 1000" "Fin 2000" "Fin 150"]
    clamp_lenient[of "Fin 1000" "Fin 2000" NaN]
    clamp_lenient[of "Fin 1000" "Fin 2000" "Fin 30"]
  by simp

text \<open>
  C3, as amended. For every finite generation \<open>\<ge> 0\<close>, every consumption \<open>\<ge> 0\<close> and every
  percentage in [0, 100], the allocator returns a value that is at most the consumption,
  at most the target \<^verbatim>\<open>generation * (pct / 100.0)\<close> as the code computes it (two binary64
  roundings, the quotient first), and at most the generation.
\<close>

theorem self_consumed_le:
  assumes "finite_float g" "fle (Fin 0) g" "fle (Fin 0) c" "fle (Fin 0) p" "fle p (Fin 100)"
  shows "\<exists>s frac. compute_self_consumed_kwh g c p = Inr s \<and> fdiv p (Fin 100) = Inr frac \<and>
           fle s c \<and> fle s (fmul g frac) \<and> fle s g"
proof -
  obtain g' where g: "g = Fin g'" "is_double g'" "0 \<le> g'"
    using assms(1,2) by (cases g) auto
  obtain q where p: "p = Fin q" using assms(4,5) by (cases p) auto
  have cl: "clamp p (Fin 0) (Fin 100) = Fin q" using clamp_id[OF assms(4,5)] p by simp
  obtain t where t: "fmul (Fin g') (rnd (q / 100)) = Fin t" "0 \<le> t" "t \<le> g'"
    using self_consumed_bounds[OF g(2,3) cl] by blast
  have s: "compute_self_consumed_kwh g c p = Inr (py_min (Fin t) c)"
    using self_consumed_eq[OF cl, of g c] t(1) g(1) by simp
  have fr: "fdiv p (Fin 100) = Inr (rnd (q / 100))" using p by simp
  have "fle (py_min (Fin t) c) c \<and> fle (py_min (Fin t) c) (Fin t) \<and> fle (py_min (Fin t) c) (Fin g')"
    using assms(3) t(3) by (cases c) (auto simp: py_min_def)
  then show ?thesis using s fr t(1) g(1) by auto
qed

theorem self_consumed_le_witness:
  "finite_float (Fin 4500) \<and> fle (Fin 0) (Fin 4500) \<and> fle (Fin 0) (Fin 4000) \<and>
   fle (Fin 0) (Fin 30) \<and> fle (Fin 30) (Fin 100) \<and>
   (\<exists>s frac. compute_self_consumed_kwh (Fin 4500) (Fin 4000) (Fin 30) = Inr s \<and>
      fdiv (Fin 30) (Fin 100) = Inr frac \<and>
      fle s (Fin 4000) \<and> fle s (fmul (Fin 4500) frac) \<and> fle s (Fin 4500))"
proof -
  have h: "finite_float (Fin 4500)" "fle (Fin 0) (Fin 4500)" "fle (Fin 0) (Fin 4000)"
    "fle (Fin 0) (Fin 30)" "fle (Fin 30) (Fin 100)"
    by (simp_all add: is_double_numeral)
  from self_consumed_le[OF h] h show ?thesis by blast
qed

text \<open>
  The bound of C3 as it is written, \<^verbatim>\<open>generation * pct / 100\<close>, does not hold: for
  generation 100, consumption 4000 and 7 percent the allocator returns
  \<open>7 + 2\<^sup>-\<^sup>5\<^sup>0\<close> (Python prints \<^verbatim>\<open>7.000000000000001\<close>), which exceeds both the exact
  product \<open>100 * 7 / 100 = 7\<close> and the float \<^verbatim>\<open>100.0 * 7.0 / 100\<close>, which is \<^verbatim>\<open>7.0\<close>.
\<close>

theorem self_consumed_exceeds_exact_share:
  "fle (Fin 0) (Fin 100) \<and> fle (Fin 0) (Fin 4000) \<and> fle (Fin 0) (Fin 7) \<and> fle (Fin 7) (Fin 100) \<and>
   compute_self_consumed_kwh (Fin 100) (Fin 4000) (Fin 7) =
     Inr (Fin (7881299347898369 / 1125899906842624)) \<and>
   \<not> fle (Fin (7881299347898369 / 1125899906842624)) (Fin (100 * 7 / 100)) \<and>
   fdiv (fmul (Fin 100) (Fin 7)) (Fin 100) = Inr (Fin 7) \<and>
   \<not> fle (Fin (7881299347898369 / 1125899906842624)) (Fin 7)"
proof (intro conjI)
  show "compute_self_consumed_kwh (Fin 100) (Fin 4000) (Fin 7) =
     Inr (Fin (7881299347898369 / 1125899906842624))"
    by (simp add: compute_self_consumed_kwh_def clamp_def py_min_def py_max_def bind_err_def
      cent_7 target_7 del: fdiv.simps fmul.simps)
  show "fdiv (fmul (Fin 100) (Fin 7)) (Fin 100) = Inr (Fin 7)"
    by (simp add: rnd_numeral)
qed simp_all

text \<open>
  C7. For every finite generation \<open>\<ge> 0\<close>, every consumption \<open>\<ge> 0\<close> and any percentage,
  the exported energy \<^verbatim>\<open>generation - self_consumed\<close> is \<open>\<ge> 0\<close>, so that
  \<^verbatim>\<open>max(0.0, generation - self_consumed)\<close> leaves it unchanged, and the exported quantity
  the variants use is never negative.
\<close>

theorem export_nonneg:
  assumes "finite_float g" "fle (Fin 0) g" "fle (Fin 0) c"
  shows "\<exists>s. compute_self_consumed_kwh g c p = Inr s \<and> fle (Fin 0) (fsub g s) \<and>
           py_max (Fin 0) (fsub g s) = fsub g s \<and> fle (Fin 0) (py_max (Fin 0) (fsub g s))"
proof -
  obtain g' where g: "g = Fin g'" "is_double g'" "0 \<le> g'"
    using assms(1,2) by (cases g) auto
  obtain q where cl: "clamp p (Fin 0) (Fin 100) = Fin q" using clamp_range by blast
  obtain t where t: "fmul (Fin g') (rnd (q / 100)) = Fin t" "0 \<le> t" "t \<le> g'"
    using self_consumed_bounds[OF g(2,3) cl] by blast
  have s: "compute_self_consumed_kwh g c p = Inr (py_min (Fin t) c)"
    using self_consumed_eq[OF cl, of g c] t(1) g(1) by simp
  have "\<exists>s'. py_min (Fin t) c = Fin s' \<and> s' \<le> g'"
    using assms(3) t(3) by (cases c) (auto simp: py_min_def)
  then obtain s' where s': "py_min (Fin t) c = Fin s'" "s' \<le> g'"
    by blast
  have "fle (Fin 0) (rnd (g' - s'))" using s'(2) by (intro rnd_nonneg) simp
  then have e: "fle (Fin 0) (fsub g (Fin s'))" by (simp add: fsub_def g(1))
  then have "py_max (Fin 0) (fsub g (Fin s')) = fsub g (Fin s')"
    by (cases "fsub g (Fin s')") (auto simp: py_max_def)
  with e s s' show ?thesis by simp
qed

theorem export_nonneg_witness:
  "finite_float (Fin 4500) \<and> fle (Fin 0) (Fin 4500) \<and> fle (Fin 0) (Fin 4000) \<and>
   (\<exists>s. compute_self_consumed_kwh (Fin 4500) (Fin 4000) (Fin 30) = Inr s \<and>
      fle (Fin 0) (fsub (Fin 4500) s) \<and>
      py_max (Fin 0) (fsub (Fin 4500) s) = fsub (Fin 4500) s \<and>
      fle (Fin 0) (py_max (Fin 0) (fsub (Fin 4500) s)))"
proof -
  have h: "finite_float (Fin 4500)" "fle (Fin 0) (Fin 4500)" "fle (Fin 0) (Fin 4000)"
    by (simp_all add: is_double_numeral)
  from export_nonneg[OF h, of "Fin 30"] h show ?thesis by blast
qed

subsection \<open>The variants\<close>

text \<open>
  C1. Every variant returns a \<open>Result\<close>, for all inputs, and in it
  \<^verbatim>\<open>total_10y_eur == -invest_eur + 10 * annual_cashflow_eur\<close> and
  \<^verbatim>\<open>total_20y_eur == -invest_eur + 20 * annual_cashflow_eur\<close>, the right-hand sides
  evaluated in float arithmetic as the code evaluates them. (Variant 1 stores
  \<^verbatim>\<open>10 * annual\<close>; with its investment of 0 that is the same float.)
\<close>

theorem totals_linear_all_variants:
  "(\<exists>r. variant1_full_feed_in g m = Inr r \<and>
      total_10y_eur r = fadd (fneg (invest_eur r)) (fmul (Fin 10) (annual_cashflow_eur r)) \<and>
      total_20y_eur r = fadd (fneg (invest_eur r)) (fmul (Fin 20) (annual_cashflow_eur r))) \<and>
   (\<exists>r. variant_self_consumption nm g c p i rc ec = Inr r \<and>
      total_10y_eur r = fadd (fneg (invest_eur r)) (fmul (Fin 10) (annual_cashflow_eur r)) \<and>
      total_20y_eur r = fadd (fneg (invest_eur r)) (fmul (Fin 20) (annual_cashflow_eur r))) \<and>
   (\<exists>r. variant4_new_system g c p i rc ec = Inr r \<and>
      total_10y_eur r = fadd (fneg (invest_eur r)) (fmul (Fin 10) (annual_cashflow_eur r)) \<and>
      total_20y_eur r = fadd (fneg (invest_eur r)) (fmul (Fin 20) (annual_cashflow_eur r)))"
proof (intro conjI)
  obtain mv where mv: "euro_per_kwh_from_cent m = Inr mv" using euro_total by blast
  obtain pb where pb: "payback_years (Fin 0) (fmul g mv) = Inr pb" using payback_total by blast
  show "\<exists>r. variant1_full_feed_in g m = Inr r \<and>
      total_10y_eur r = fadd (fneg (invest_eur r)) (fmul (Fin 10) (annual_cashflow_eur r)) \<and>
      total_20y_eur r = fadd (fneg (invest_eur r)) (fmul (Fin 20) (annual_cashflow_eur r))"
    unfolding variant1_eq[OF mv pb] by (simp add: fadd_zero_fmul)
next
  obtain retail where r: "euro_per_kwh_from_cent rc = Inr retail" using euro_total by blast
  obtain price where e: "euro_per_kwh_from_cent ec = Inr price" using euro_total by blast
  obtain s where s: "compute_self_consumed_kwh g c p = Inr s" using self_consumed_total by blast
  define annual where "annual = fadd (fmul s retail) (fmul (py_max (Fin 0) (fsub g s)) price)"
  obtain pb where pb: "payback_years i annual = Inr pb" using payback_total by blast
  show "\<exists>r. variant_self_consumption nm g c p i rc ec = Inr r \<and>
      total_10y_eur r = fadd (fneg (invest_eur r)) (fmul (Fin 10) (annual_cashflow_eur r)) \<and>
      total_20y_eur r = fadd (fneg (invest_eur r)) (fmul (Fin 20) (annual_cashflow_eur r))"
    unfolding variant_self_consumption_eq[OF r e s annual_def pb] by simp
  show "\<exists>r. variant4_new_system g c p i rc ec = Inr r \<and>
      total_10y_eur r = fadd (fneg (invest_eur r)) (fmul (Fin 10) (annual_cashflow_eur r)) \<and>
      total_20y_eur r = fadd (fneg (invest_eur r)) (fmul (Fin 20) (annual_cashflow_eur r))"
    unfolding variant4_eq[OF r e s annual_def pb] by simp
qed

text \<open>
  C10. For finite non-negative generation, investment and prices, a non-negative
  consumption and any percentage, every variant returns a result whose annual cash flow
  is \<open>\<ge> 0\<close>; its payback is \<open>None\<close> exactly when the annual cash flow is 0 and the
  investment is positive; and its 20-year total is at least \<open>-invest_eur\<close>.
\<close>

theorem cashflow_nonneg:
  assumes "finite_float g" "fle (Fin 0) g" "fle (Fin 0) c"
    and "finite_float i" "fle (Fin 0) i"
    and "finite_float rc" "fle (Fin 0) rc" "finite_float ec" "fle (Fin 0) ec"
  shows "(\<exists>r. variant1_full_feed_in g ec = Inr r \<and>
            fle (Fin 0) (annual_cashflow_eur r) \<and>
            (payback r = None \<longleftrightarrow>
               annual_cashflow_eur r = Fin 0 \<and> flt (Fin 0) (invest_eur r)) \<and>
            fle (fneg (invest_eur r)) (total_20y_eur r)) \<and>
         (\<exists>r. variant_self_consumption nm g c p i rc ec = Inr r \<and>
            fle (Fin 0) (annual_cashflow_eur r) \<and>
            (payback r = None \<longleftrightarrow>
               annual_cashflow_eur r = Fin 0 \<and> flt (Fin 0) (invest_eur r)) \<and>
            fle (fneg (invest_eur r)) (total_20y_eur r)) \<and>
         (\<exists>r. variant4_new_system g c p i rc ec = Inr r \<and>
            fle (Fin 0) (annual_cashflow_eur r) \<and>
            (payback r = None \<longleftrightarrow>
               annual_cashflow_eur r = Fin 0 \<and> flt (Fin 0) (invest_eur r)) \<and>
            fle (fneg (invest_eur r)) (total_20y_eur r))"
proof (intro conjI)
  obtain g' where g: "g = Fin g'" "0 \<le> g'" using assms(1,2) by (cases g) auto
  obtain i' where i: "i = Fin i'" "is_double i'" using assms(4) by (cases i) auto
  obtain retail where retail: "euro_per_kwh_from_cent rc = Inr (Fin retail)" "0 \<le> retail"
    using euro_nonneg[OF assms(6,7)] by blast
  obtain price where price: "euro_per_kwh_from_cent ec = Inr (Fin price)" "0 \<le> price"
    using euro_nonneg[OF assms(8,9)] by blast
  obtain s e where s: "compute_self_consumed_kwh g c p = Inr (Fin s)" "0 \<le> s"
    and e: "py_max (Fin 0) (fsub g (Fin s)) = Fin e" "0 \<le> e"
    using split_nonneg[OF assms(1,2,3)] by blast
  define a1 where "a1 = fmul g (Fin price)"
  have a1: "fle (Fin 0) a1" unfolding a1_def g(1) using g(2) price(2) by (rule fmul_nonneg)
  have pb1: "payback_years (Fin 0) a1 = Inr (Some (Fin 0))" by (simp add: payback_years_def)
  have t1: "fle (Fin 0) (fmul (Fin 20) a1)" using a1 by (rule fmul_numeral_nonneg)
  show "\<exists>r. variant1_full_feed_in g ec = Inr r \<and>
            fle (Fin 0) (annual_cashflow_eur r) \<and>
            (payback r = None \<longleftrightarrow>
               annual_cashflow_eur r = Fin 0 \<and> flt (Fin 0) (invest_eur r)) \<and>
            fle (fneg (invest_eur r)) (total_20y_eur r)"
    unfolding variant1_eq[OF price(1) pb1[unfolded a1_def]] using a1 t1 by (simp add: a1_def)
  define a where "a = fadd (fmul (Fin s) (Fin retail)) (fmul (py_max (Fin 0) (fsub g (Fin s))) (Fin price))"
  have a: "fle (Fin 0) a"
    unfolding a_def e(1) using s(2) e(2) retail(2) price(2)
    by (intro fadd_nonneg fmul_nonneg)
  obtain pb where pb: "payback_years i a = Inr pb" using payback_total by blast
  have pbn: "pb = None \<longleftrightarrow> a = Fin 0 \<and> flt (Fin 0) i"
    using payback_None_iff[OF a, of i] pb i(1) by simp
  have "fle (Fin 0) (fmul (Fin 20) a)" using a by (rule fmul_numeral_nonneg)
  then have t: "fle (fneg i) (fadd (fneg i) (fmul (Fin 20) a))"
    unfolding i(1) fneg.simps using i(2) by (intro total_ge)
  show "\<exists>r. variant_self_consumption nm g c p i rc ec = Inr r \<and>
            fle (Fin 0) (annual_cashflow_eur r) \<and>
            (payback r = None \<longleftrightarrow>
               annual_cashflow_eur r = Fin 0 \<and> flt (Fin 0) (invest_eur r)) \<and>
            fle (fneg (invest_eur r)) (total_20y_eur r)"
    unfolding variant_self_consumption_eq[OF retail(1) price(1) s(1) a_def pb]
    using a pbn t by simp
  show "\<exists>r. variant4_new_system g c p i rc ec = Inr r \<and>
            fle (Fin 0) (annual_cashflow_eur r) \<and>
            (payback r = None \<longleftrightarrow>
               annual_cashflow_eur r = Fin 0 \<and> flt (Fin 0) (invest_eur r)) \<and>
            fle (fneg (invest_eur r)) (total_20y_eur r)"
    unfolding variant4_eq[OF retail(1) price(1) s(1) a_def pb]
    using a pbn t by simp
qed

theorem cashflow_nonneg_witness:
  "finite_float (Fin 4500) \<and> fle (Fin 0) (Fin 4500) \<and> fle (Fin 0) (Fin 4000) \<and>
   finite_float (Fin 1200) \<and> fle (Fin 0) (Fin 1200) \<and>
   finite_float (Fin 32) \<and> fle (Fin 0) (Fin 32) \<and>
   finite_float (Fin (7 / 2)) \<and> fle (Fin 0) (Fin (7 / 2)) \<and>
   (\<exists>r. variant_self_consumption ''V2'' (Fin 4500) (Fin 4000) (Fin 30) (Fin 1200) (Fin 32) (Fin (7 / 2)) = Inr r \<and>
      fle (Fin 0) (annual_cashflow_eur r) \<and>
      (payback r = None \<longleftrightarrow> annual_cashflow_eur r = Fin 0 \<and> flt (Fin 0) (invest_eur r)) \<and>
      fle (fneg (invest_eur r)) (total_20y_eur r))"
proof -
  have h: "finite_float (Fin 4500)" "fle (Fin 0) (Fin 4500)" "fle (Fin 0) (Fin 4000)"
    "finite_float (Fin 1200)" "fle (Fin 0) (Fin 1200)"
    "finite_float (Fin 32)" "fle (Fin 0) (Fin 32)"
    "finite_float (Fin (7 / 2))" "fle (Fin 0) (Fin (7 / 2))"
    by (simp_all add: is_double_numeral is_double_3_5)
  from cashflow_nonneg[OF h, of "''V2''" "Fin 30"] h show ?thesis by blast
qed

text \<open>
  C8, as amended. Variant 1 always returns a result with \<open>invest_eur = 0\<close>,
  \<^verbatim>\<open>annual_cashflow_eur = generation * (market_cent / 100.0)\<close> and a payback of 0. For
  generation 4500 and a market value of 3.5 ct the annual cash flow is the float
  \<open>157.5 + 2\<^sup>-\<^sup>4\<^sup>5\<close> (Python prints \<^verbatim>\<open>157.50000000000003\<close>) and the 20-year total is
  \<open>3150 + 2\<^sup>-\<^sup>4\<^sup>1\<close> (\<^verbatim>\<open>3150.0000000000005\<close>): \<^verbatim>\<open>3.5 / 100.0\<close> is rounded up, and
  the product keeps the excess.
\<close>

theorem variant1_full_export:
  "(\<exists>r mv. variant1_full_feed_in g m = Inr r \<and> euro_per_kwh_from_cent m = Inr mv \<and>
      invest_eur r = Fin 0 \<and> annual_cashflow_eur r = fmul g mv \<and> payback r = Some (Fin 0)) \<and>
   variant1_full_feed_in (Fin 4500) (Fin (7 / 2)) =
     Inr \<lparr> name = ''V1 Volleinspeisung (Marktwert)'', invest_eur = Fin 0,
           annual_cashflow_eur = Fin (5541538603991041 / 35184372088832),
           total_10y_eur = Fin (6926923254988801 / 4398046511104),
           total_20y_eur = Fin (6926923254988801 / 2199023255552),
           payback = Some (Fin 0) \<rparr> \<and>
   \<bar>5541538603991041 / 35184372088832 - 315 / 2\<bar> = (1 / 2 ^ 45 :: rat) \<and>
   \<bar>6926923254988801 / 2199023255552 - 3150\<bar> = (1 / 2 ^ 41 :: rat)"
proof (intro conjI)
  obtain mv where mv: "euro_per_kwh_from_cent m = Inr mv" using euro_total by blast
  have pb: "payback_years (Fin 0) (fmul g mv) = Inr (Some (Fin 0))"
    by (simp add: payback_years_def)
  show "\<exists>r mv. variant1_full_feed_in g m = Inr r \<and> euro_per_kwh_from_cent m = Inr mv \<and>
      invest_eur r = Fin 0 \<and> annual_cashflow_eur r = fmul g mv \<and> payback r = Some (Fin 0)"
    unfolding variant1_eq[OF mv pb] using mv by simp
  show "variant1_full_feed_in (Fin 4500) (Fin (7 / 2)) =
     Inr \<lparr> name = ''V1 Volleinspeisung (Marktwert)'', invest_eur = Fin 0,
           annual_cashflow_eur = Fin (5541538603991041 / 35184372088832),
           total_10y_eur = Fin (6926923254988801 / 4398046511104),
           total_20y_eur = Fin (6926923254988801 / 2199023255552),
           payback = Some (Fin 0) \<rparr>"
    by (rule variant1_scenario)
qed simp_all

text \<open>
  The values of C8 as it is written, an annual cash flow of 157.5 and a 20-year total of
  3150, are not the ones the code computes in that scenario.
\<close>

theorem variant1_scenario_inexact:
  "annual_cashflow_eur (projr (variant1_full_feed_in (Fin 4500) (Fin (7 / 2)))) \<noteq> Fin (315 / 2) \<and>
   total_20y_eur (projr (variant1_full_feed_in (Fin 4500) (Fin (7 / 2)))) \<noteq> Fin 3150"
  by (simp add: variant1_scenario)

text \<open>
  C9. For generation 4500, consumption 4000, 30 percent, a retail price of 32 ct and an
  export price of 3.5 ct, the allocator returns exactly 1350, the exported energy is
  exactly 3150, and the annual cash flow of \<open>variant_self_consumption\<close> is exactly
  542.25, whatever the name and the investment. (The product \<^verbatim>\<open>3150 * 0.035\<close> is the
  float \<open>110.25 + 2\<^sup>-\<^sup>4\<^sup>6\<close>; the sum with 432 rounds to 542.25.)
\<close>

theorem scenario_self_consumption:
  "compute_self_consumed_kwh (Fin 4500) (Fin 4000) (Fin 30) = Inr (Fin 1350) \<and>
   py_max (Fin 0) (fsub (Fin 4500) (Fin 1350)) = Fin 3150 \<and>
   (\<exists>r. variant_self_consumption nm (Fin 4500) (Fin 4000) (Fin 30) invest (Fin 32) (Fin (7 / 2)) = Inr r \<and>
        annual_cashflow_eur r = Fin (2169 / 4))"
proof (intro conjI)
  show "compute_self_consumed_kwh (Fin 4500) (Fin 4000) (Fin 30) = Inr (Fin 1350)"
    by (rule self_1350)
  show "py_max (Fin 0) (fsub (Fin 4500) (Fin 1350)) = Fin 3150"
    by (rule export_3150)
  obtain pb where pb: "payback_years invest (Fin (2169 / 4)) = Inr pb"
    using payback_total by blast
  show "\<exists>r. variant_self_consumption nm (Fin 4500) (Fin 4000) (Fin 30) invest (Fin 32) (Fin (7 / 2)) = Inr r \<and>
        annual_cashflow_eur r = Fin (2169 / 4)"
    unfolding variant_self_consumption_eq[OF cent_32 cent_3_5 self_1350 scenario_annual[symmetric] pb]
    by simp
qed

subsection \<open>Ranking and the cash-flow series\<close>

text \<open>
  C4. From the list of the four results, none of whose 20-year totals is NaN, \<open>best_20\<close>
  returns the element at an index \<open>i\<close> such that no element has a greater
  \<open>total_20y_eur\<close> and every element before \<open>i\<close> has a strictly smaller one: the maximum,
  and among equal maxima the first in the order V1, V2, V3, V4.
\<close>

theorem best_20_first_max:
  assumes "\<forall>r \<in> set [r1, r2, r3, r4]. total_20y_eur r \<noteq> NaN"
  shows "\<exists>i < 4. best_20 [r1, r2, r3, r4] = Inr ([r1, r2, r3, r4] ! i) \<and>
           (\<forall>j < 4. fle (total_20y_eur ([r1, r2, r3, r4] ! j)) (total_20y_eur ([r1, r2, r3, r4] ! i))) \<and>
           (\<forall>j < i. flt (total_20y_eur ([r1, r2, r3, r4] ! j)) (total_20y_eur ([r1, r2, r3, r4] ! i)))"
proof -
  have len: "length [r1, r2, r3, r4] = 4" by simp
  have mk: "best_20 [r1, r2, r3, r4] = Inr (max_key_from total_20y_eur r1 [r2, r3, r4])"
    by (simp add: best_20_def)
  show ?thesis
    using max_key_from_first_max[OF assms, unfolded len] by (simp only: mk sum.inject)
qed

theorem best_20_first_max_witness:
  "total_20y_eur \<lparr> name = ''a'', invest_eur = Fin 0, annual_cashflow_eur = Fin 0, total_10y_eur = Fin 0, total_20y_eur = Fin 3, payback = None \<rparr> \<noteq> NaN \<and>
   total_20y_eur \<lparr> name = ''b'', invest_eur = Fin 0, annual_cashflow_eur = Fin 0, total_10y_eur = Fin 0, total_20y_eur = Fin 5, payback = None \<rparr> \<noteq> NaN \<and>
   total_20y_eur \<lparr> name = ''c'', invest_eur = Fin 0, annual_cashflow_eur = Fin 0, total_10y_eur = Fin 0, total_20y_eur = Fin 5, payback = None \<rparr> \<noteq> NaN \<and>
   total_20y_eur \<lparr> name = ''d'', invest_eur = Fin 0, annual_cashflow_eur = Fin 0, total_10y_eur = Fin 0, total_20y_eur = Fin 1, payback = None \<rparr> \<noteq> NaN \<and>
   best_20
     [\<lparr> name = ''a'', invest_eur = Fin 0, annual_cashflow_eur = Fin 0, total_10y_eur = Fin 0, total_20y_eur = Fin 3, payback = None \<rparr>,
      \<lparr> name = ''b'', invest_eur = Fin 0, annual_cashflow_eur = Fin 0, total_10y_eur = Fin 0, total_20y_eur = Fin 5, payback = None \<rparr>,
      \<lparr> name = ''c'', invest_eur = Fin 0, annual_cashflow_eur = Fin 0, total_10y_eur = Fin 0, total_20y_eur = Fin 5, payback = None \<rparr>,
      \<lparr> name = ''d'', invest_eur = Fin 0, annual_cashflow_eur = Fin 0, total_10y_eur = Fin 0, total_20y_eur = Fin 1, payback = None \<rparr>]
   = Inr \<lparr> name = ''b'', invest_eur = Fin 0, annual_cashflow_eur = Fin 0, total_10y_eur = Fin 0, total_20y_eur = Fin 5, payback = None \<rparr>"
proof -
  define ra where "ra = \<lparr> name = ''a'', invest_eur = Fin 0, annual_cashflow_eur = Fin 0, total_10y_eur = Fin 0, total_20y_eur = Fin 3, payback = None \<rparr>"
  define rb where "rb = \<lparr> name = ''b'', invest_eur = Fin 0, annual_cashflow_eur = Fin 0, total_10y_eur = Fin 0, total_20y_eur = Fin 5, payback = None \<rparr>"
  define rc where "rc = \<lparr> name = ''c'', invest_eur = Fin 0, annual_cashflow_eur = Fin 0, total_10y_eur = Fin 0, total_20y_eur = Fin 5, payback = None \<rparr>"
  define rd where "rd = \<lparr> name = ''d'', invest_eur = Fin 0, annual_cashflow_eur = Fin 0, total_10y_eur = Fin 0, total_20y_eur = Fin 1, payback = None \<rparr>"
  have k: "total_20y_eur ra = Fin 3" "total_20y_eur rb = Fin 5" "total_20y_eur rc = Fin 5"
    "total_20y_eur rd = Fin 1"
    by (simp_all add: ra_def rb_def rc_def rd_def)
  have nn: "\<forall>r \<in> set [ra, rb, rc, rd]. total_20y_eur r \<noteq> NaN" by (simp add: k)
  from best_20_first_max[OF nn] obtain i where i: "i < 4"
    and b: "best_20 [ra, rb, rc, rd] = Inr ([ra, rb, rc, rd] ! i)"
    and all: "\<forall>j < 4. fle (total_20y_eur ([ra, rb, rc, rd] ! j)) (total_20y_eur ([ra, rb, rc, rd] ! i))"
    and first: "\<forall>j < i. flt (total_20y_eur ([ra, rb, rc, rd] ! j)) (total_20y_eur ([ra, rb, rc, rd] ! i))"
    by blast
  from i consider "i = 0" | "i = 1" | "i = 2" | "i = 3" by linarith
  then have "i = 1"
  proof cases
    case 1
    with all[rule_format, of 1] show ?thesis by (simp add: k)
  next
    case 2 then show ?thesis .
  next
    case 3
    with first[rule_format, of 1] show ?thesis by (simp add: k)
  next
    case 4
    with all[rule_format, of 1] show ?thesis by (simp add: k)
  qed
  with b have "best_20 [ra, rb, rc, rd] = Inr rb" by simp
  then show ?thesis using k unfolding ra_def rb_def rc_def rd_def by simp
qed

text \<open>
  C5. The cash-flow series has 21 points, for the years 0 to 20, and its value at year
  \<open>y\<close> is \<^verbatim>\<open>-invest + annual * y\<close>; for a finite investment and a finite annual cash
  flow the value at year 0 is \<open>-invest\<close>.
\<close>

theorem cashflow_curve_linear:
  "length (cashflow_curve invest annual) = 21 \<and>
   (\<forall>y<21. cashflow_curve invest annual ! y = fadd (fneg invest) (fmul annual (Fin (of_nat y)))) \<and>
   (finite_float invest \<and> finite_float annual \<longrightarrow> cashflow_curve invest annual ! 0 = fneg invest)"
proof (intro conjI allI impI)
  show "length (cashflow_curve invest annual) = 21"
    by (simp add: cashflow_curve_def years_length)
next
  fix y :: nat
  assume "y < 21"
  then show "cashflow_curve invest annual ! y = fadd (fneg invest) (fmul annual (Fin (of_nat y)))"
    by (simp add: cashflow_curve_def years_length years_nth)
next
  assume h: "finite_float invest \<and> finite_float annual"
  then obtain i where i: "invest = Fin i" "is_double i" by (cases invest) auto
  from h obtain a where a: "annual = Fin a" by (cases annual) auto
  have "rnd (- i) = Fin (- i)" using is_double_neg[OF i(2)] by (simp add: is_double_def)
  then show "cashflow_curve invest annual ! 0 = fneg invest"
    by (simp add: cashflow_curve_def years_length years_nth i(1) a rnd_0)
qed

theorem cashflow_curve_linear_witness:
  "finite_float (Fin 1200) \<and> finite_float (Fin (2169 / 4)) \<and>
   length (cashflow_curve (Fin 1200) (Fin (2169 / 4))) = 21 \<and>
   cashflow_curve (Fin 1200) (Fin (2169 / 4)) ! 0 = Fin (- 1200) \<and>
   cashflow_curve (Fin 1200) (Fin (2169 / 4)) ! 20 = Fin 9645"
proof -
  have h: "finite_float (Fin 1200)" "finite_float (Fin (2169 / 4))"
    by (simp_all add: is_double_numeral is_double_542)
  have "rnd (- 1200 + 10845) = Fin 9645" by (simp add: rnd_numeral)
  then have "fadd (fneg (Fin 1200)) (fmul (Fin (2169 / 4)) (Fin (of_nat 20))) = Fin 9645"
    by (simp add: rnd_numeral)
  with cashflow_curve_linear[of "Fin 1200" "Fin (2169 / 4)"] h show ?thesis by simp
qed

end
